theory Spec2Isabelle
  imports Complex_Main
begin

text \<open>
  The chart-data service of the gold price calculator (\<open>server/app.js\<close>): raw records of
  a cached history are coerced to samples of a timestamp and a price, sorted and
  deduplicated, restricted to a trailing time window and thinned out for display. The
  functions of the service are embedded as HOL functions, under the names they have in the
  source, and the properties the specification states about them are proved or refuted.
\<close>

section \<open>JavaScript values\<close>

text \<open>
  A JavaScript number is a finite double, one of the two infinities, or NaN. A finite
  double is kept as the rational it denotes; the sign of zero is not part of this model.
\<close>

datatype number = Fin rat | PosInf | NegInf | NaN

fun isFinite :: "number \<Rightarrow> bool" where
  "isFinite (Fin r) = True"
| "isFinite n = False"

fun isNaN :: "number \<Rightarrow> bool" where
  "isNaN NaN = True"
| "isNaN n = False"

text \<open>
  Arithmetic on doubles is the exact operation followed by the rounding of IEEE 754
  binary64: to the nearest double, a tie going to the even significand, with gradual
  underflow and with overflow to an infinity. \<open>to_double\<close> is this rounding: the spacing of
  the doubles around \<open>x\<close> is \<open>2\<^sup>u\<close> for the least exponent \<open>u\<close> from \<open>-1074\<close> on with
  \<open>|x| < 2\<^sup>u\<^sup>+\<^sup>5\<^sup>3\<close>, and no such exponent up to 971 means overflow.
\<close>

definition round_half_even :: "rat \<Rightarrow> int" where
  "round_half_even r =
     (let f = \<lfloor>r\<rfloor>; d = r - of_int f
      in if d < 1 / 2 then f else if 1 / 2 < d then f + 1 else if even f then f else f + 1)"

definition exponents :: "int list" where
  "exponents = [- 1074..971]"

definition to_double :: "rat \<Rightarrow> number" where
  "to_double x =
     (case List.find (\<lambda>u. \<bar>x\<bar> < 2 powi (u + 53)) exponents of
        None \<Rightarrow> (if 0 < x then PosInf else NegInf)
      | Some u \<Rightarrow>
          let y = of_int (round_half_even (\<bar>x\<bar> / 2 powi u)) * 2 powi u
          in if 2 powi 1024 \<le> y then (if 0 < x then PosInf else NegInf)
             else Fin (if 0 \<le> x then y else - y))"

definition times_double :: "rat \<Rightarrow> rat \<Rightarrow> number" where
  \<comment> \<open>The product \<open>a * b\<close> of two finite doubles.\<close>
  "times_double a b = to_double (a * b)"

definition minus_double :: "rat \<Rightarrow> rat \<Rightarrow> number" where
  \<comment> \<open>The difference \<open>a - b\<close> of two finite doubles.\<close>
  "minus_double a b = to_double (a - b)"

fun ge_number :: "number \<Rightarrow> number \<Rightarrow> bool" where
  "ge_number NaN b = False"
| "ge_number a NaN = False"
| "ge_number PosInf b = True"
| "ge_number a NegInf = True"
| "ge_number (Fin a) (Fin b) = (b \<le> a)"
| "ge_number (Fin a) PosInf = False"
| "ge_number NegInf b = False"

definition Math_round :: "rat \<Rightarrow> rat" where
  \<comment> \<open>\<open>Math.round\<close> of a finite double: the nearest integer, a tie going up. It is exact.\<close>
  "Math_round x = of_int \<lfloor>x + 1 / 2\<rfloor>"

fun Math_round_number :: "number \<Rightarrow> number" where
  "Math_round_number (Fin x) = Fin (Math_round x)"
| "Math_round_number n = n"

text \<open>
  The values a raw record is made of: what \<open>JSON.parse\<close> produces (null, booleans, numbers,
  strings, arrays, objects with string keys), and also \<open>undefined\<close> and \<open>Date\<close> objects, which
  the normalizers test for. A \<open>Date\<close> carries its time value, \<open>None\<close> for an invalid date.
\<close>

datatype jsval =
    JUndefined
  | JNull
  | JBool bool
  | JNum number
  | JStr string
  | JDate "int option"
  | JArr "jsval list"
  | JObj "(string \<times> jsval) list"

definition time_value :: "int option \<Rightarrow> number" where
  \<comment> \<open>A time value as a number: integral milliseconds, or NaN.\<close>
  "time_value t = (case t of None \<Rightarrow> NaN | Some ms \<Rightarrow> Fin (of_int ms))"

subsection \<open>\<open>Number(string)\<close>\<close>

text \<open>
  The conversion of a string to a number (ECMAScript \<open>StringToNumber\<close>): white space is
  trimmed; the empty string is \<open>0\<close>; then a binary, octal or hexadecimal integer literal, or
  an optionally signed \<open>Infinity\<close> or decimal literal with optional fraction and exponent;
  anything else is NaN. The value of a literal is rounded to a double. Strings are
  sequences of 8-bit characters here.
\<close>

definition isStrWhiteSpaceChar :: "char \<Rightarrow> bool" where
  "isStrWhiteSpaceChar c = ((of_char c :: nat) \<in> set [9, 10, 11, 12, 13, 32, 160])"

definition trim :: "string \<Rightarrow> string" where
  "trim s = rev (dropWhile isStrWhiteSpaceChar (rev (dropWhile isStrWhiteSpaceChar s)))"

definition digit_of :: "char \<Rightarrow> nat option" where
  \<comment> \<open>The value of a digit \<open>0-9\<close>, \<open>a-z\<close> or \<open>A-Z\<close> (the letters from ten on).\<close>
  "digit_of c =
     (let k = (of_char c :: nat) in
      if 48 \<le> k \<and> k \<le> 57 then Some (k - 48)
      else if 97 \<le> k \<and> k \<le> 122 then Some (k - 87)
      else if 65 \<le> k \<and> k \<le> 90 then Some (k - 55)
      else None)"

definition is_digit :: "nat \<Rightarrow> char \<Rightarrow> bool" where
  "is_digit base c = (case digit_of c of None \<Rightarrow> False | Some d \<Rightarrow> d < base)"

definition digits_value :: "nat \<Rightarrow> string \<Rightarrow> nat" where
  "digits_value base ds = foldl (\<lambda>acc c. base * acc + (case digit_of c of None \<Rightarrow> 0 | Some d \<Rightarrow> d)) 0 ds"

definition all_digits :: "nat \<Rightarrow> string \<Rightarrow> bool" where
  "all_digits base ds = (ds \<noteq> [] \<and> list_all (is_digit base) ds)"

definition pow10 :: "int \<Rightarrow> rat" where
  "pow10 e = (if 0 \<le> e then 10 ^ nat e else 1 / 10 ^ nat (- e))"

definition exponent_part :: "string \<Rightarrow> int option" where
  \<comment> \<open>An optional \<open>e\<close> or \<open>E\<close> followed by an optionally signed run of digits.\<close>
  "exponent_part s =
     (case s of
        [] \<Rightarrow> Some 0
      | c # r \<Rightarrow>
          if c = CHR ''e'' \<or> c = CHR ''E'' then
            (case r of
               [] \<Rightarrow> None
             | d # r' \<Rightarrow>
                 if d = CHR ''+'' then
                   (if all_digits 10 r' then Some (int (digits_value 10 r')) else None)
                 else if d = CHR ''-'' then
                   (if all_digits 10 r' then Some (- int (digits_value 10 r')) else None)
                 else if all_digits 10 r then Some (int (digits_value 10 r))
                 else None)
          else None)"

definition unsigned_decimal :: "string \<Rightarrow> number" where
  "unsigned_decimal s =
     (if s = ''Infinity'' then PosInf
      else
        let ip = takeWhile (is_digit 10) s;
            r1 = dropWhile (is_digit 10) s;
            fp = (case r1 of [] \<Rightarrow> [] | c # r \<Rightarrow>
                    if c = CHR ''.'' then takeWhile (is_digit 10) r else []);
            r2 = (case r1 of [] \<Rightarrow> [] | c # r \<Rightarrow>
                    if c = CHR ''.'' then dropWhile (is_digit 10) r else r1)
        in if ip = [] \<and> fp = [] then NaN
           else (case exponent_part r2 of
                   None \<Rightarrow> NaN
                 | Some e \<Rightarrow>
                     to_double ((of_nat (digits_value 10 ip)
                                 + of_nat (digits_value 10 fp) / 10 ^ length fp) * pow10 e)))"

fun negate :: "number \<Rightarrow> number" where
  "negate (Fin r) = Fin (- r)"
| "negate PosInf = NegInf"
| "negate NegInf = PosInf"
| "negate NaN = NaN"

definition Number_str :: "string \<Rightarrow> number" where
  "Number_str str =
     (let s = trim str in
      case s of
        [] \<Rightarrow> Fin 0
      | c # r \<Rightarrow>
          if c = CHR ''+'' then unsigned_decimal r
          else if c = CHR ''-'' then negate (unsigned_decimal r)
          else if c = CHR ''0'' \<and> r \<noteq> [] \<and> (hd r = CHR ''x'' \<or> hd r = CHR ''X'') then
            (if all_digits 16 (tl r) then to_double (of_nat (digits_value 16 (tl r))) else NaN)
          else if c = CHR ''0'' \<and> r \<noteq> [] \<and> (hd r = CHR ''o'' \<or> hd r = CHR ''O'') then
            (if all_digits 8 (tl r) then to_double (of_nat (digits_value 8 (tl r))) else NaN)
          else if c = CHR ''0'' \<and> r \<noteq> [] \<and> (hd r = CHR ''b'' \<or> hd r = CHR ''B'') then
            (if all_digits 2 (tl r) then to_double (of_nat (digits_value 2 (tl r))) else NaN)
          else unsigned_decimal s)"

section \<open>Timestamp and price coercion\<close>

text \<open>
  \<open>normalizeTimestamp\<close> (app.js, lines 49-67). \<open>Date.parse\<close> accepts formats that depend on
  the engine, so it is the parameter \<open>dateParse\<close>: a time value, or \<open>None\<close> for NaN.
\<close>

function normalizeTimestamp :: "(string \<Rightarrow> int option) \<Rightarrow> jsval \<Rightarrow> number" where
  "normalizeTimestamp dateParse JUndefined = NaN"
| "normalizeTimestamp dateParse JNull = NaN"
| "normalizeTimestamp dateParse (JDate t) = time_value t"
| "normalizeTimestamp dateParse (JNum n) =
     (case n of
        Fin v \<Rightarrow>
          if v > 10 ^ 14 then Fin (Math_round v)
          else if v > 10 ^ 12 then Fin (Math_round v)
          else if v > 10 ^ 10 then Fin (Math_round v)
          else if v > 10 ^ 9 then Math_round_number (times_double v 1000)
          else Math_round_number (times_double v 1000)
      | _ \<Rightarrow> NaN)"
| "normalizeTimestamp dateParse (JStr s) =
     (let parsed = Number_str s in
      if isFinite parsed then normalizeTimestamp dateParse (JNum parsed)
      else let dateParsed = time_value (dateParse s) in
           if isNaN dateParsed then NaN else dateParsed)"
| "normalizeTimestamp dateParse (JBool b) = NaN"
| "normalizeTimestamp dateParse (JArr xs) = NaN"
| "normalizeTimestamp dateParse (JObj kvs) = NaN"
  by pat_completeness auto
termination
  by (relation "measure (\<lambda>(dp, v). case v of JStr _ \<Rightarrow> 1 | _ \<Rightarrow> 0)") auto

text \<open>\<open>normalizePrice\<close> (app.js, lines 69-77).\<close>

fun normalizePrice :: "jsval \<Rightarrow> number" where
  "normalizePrice JUndefined = NaN"
| "normalizePrice JNull = NaN"
| "normalizePrice (JNum n) = (if isFinite n then n else NaN)"
| "normalizePrice (JStr s) = (let parsed = Number_str s in if isFinite parsed then parsed else NaN)"
| "normalizePrice v = NaN"

section \<open>Point and series normalization\<close>

record sample =
  timestamp :: rat
  price_usd :: rat

fun truthy :: "jsval \<Rightarrow> bool" where
  "truthy JUndefined = False"
| "truthy JNull = False"
| "truthy (JBool b) = b"
| "truthy (JNum n) = (n \<noteq> Fin 0 \<and> n \<noteq> NaN)"
| "truthy (JStr s) = (s \<noteq> [])"
| "truthy v = True"

fun isArray :: "jsval \<Rightarrow> bool" where
  "isArray (JArr xs) = True"
| "isArray v = False"

definition elem :: "jsval list \<Rightarrow> nat \<Rightarrow> jsval" where
  \<comment> \<open>Reading an array element; past the end it is \<open>undefined\<close>.\<close>
  "elem xs i = (if i < length xs then xs ! i else JUndefined)"

definition property :: "(string \<times> jsval) list \<Rightarrow> string \<Rightarrow> jsval" where
  \<comment> \<open>Reading a property of a plain object; an absent one is \<open>undefined\<close>.\<close>
  "property kvs k = (case map_of kvs k of None \<Rightarrow> JUndefined | Some v \<Rightarrow> v)"

text \<open>The operator \<open>??\<close>.\<close>

fun nullish :: "jsval \<Rightarrow> jsval \<Rightarrow> jsval" where
  "nullish JUndefined b = b"
| "nullish JNull b = b"
| "nullish a b = a"

text \<open>
  \<open>normalizePoint\<close> (app.js, lines 79-107); \<open>None\<close> is \<open>null\<close>. Arrays and objects are always
  truthy, so \<open>!point\<close> only catches primitives, which are neither arrays nor objects and
  end at the final \<open>return null\<close> anyway. A \<open>Date\<close> is an object with none of the aliased
  properties: its timestamp is NaN and both tests fail.
\<close>

function normalizePoint :: "(string \<Rightarrow> int option) \<Rightarrow> jsval \<Rightarrow> sample option" where
  "normalizePoint dateParse (JArr xs) =
     (let tsRaw = elem xs 0;
          priceRaw = elem xs 1;
          timestamp = normalizeTimestamp dateParse tsRaw;
          price = normalizePrice priceRaw
      in case (timestamp, price) of
           (Fin t, Fin p) \<Rightarrow> Some \<lparr>timestamp = t, price_usd = p\<rparr>
         | _ \<Rightarrow> None)"
| "normalizePoint dateParse (JObj kvs) =
     (let timestamp = normalizeTimestamp dateParse
            (nullish (property kvs ''timestamp'') (nullish (property kvs ''time'')
              (nullish (property kvs ''t'') (nullish (property kvs ''date'') (property kvs ''0'')))));
          price = normalizePrice
            (nullish (property kvs ''price_usd'') (nullish (property kvs ''price'')
              (nullish (property kvs ''value'') (nullish (property kvs ''usd'')
                (nullish (property kvs ''p'') (nullish (property kvs ''close'') (property kvs ''1'')))))))
      in case (timestamp, price) of
           (Fin t, Fin p) \<Rightarrow> Some \<lparr>timestamp = t, price_usd = p\<rparr>
         | _ \<Rightarrow>
             if isFinite timestamp \<and> isArray (property kvs ''value'')
             then normalizePoint dateParse (property kvs ''value'')
             else None)"
| "normalizePoint dateParse (JDate t) = None"
| "normalizePoint dateParse JUndefined = None"
| "normalizePoint dateParse JNull = None"
| "normalizePoint dateParse (JBool b) = None"
| "normalizePoint dateParse (JNum n) = None"
| "normalizePoint dateParse (JStr s) = None"
  by pat_completeness auto
termination
proof -
  have size_property: "size (property kvs k) < Suc (size_list (size_prod (\<lambda>_. 0) size) kvs)"
    for kvs :: "(string \<times> jsval) list" and k
  proof (induction kvs)
    case Nil
    then show ?case by (simp add: property_def)
  next
    case (Cons kv kvs)
    then show ?case by (cases kv) (auto simp: property_def)
  qed
  show ?thesis
    by (relation "measure (\<lambda>(dp, v). size v)") (auto simp: size_property)
qed

text \<open>The direct aliases of a keyed record, as \<open>normalizePoint\<close> reads them.\<close>

definition direct_timestamp :: "(string \<Rightarrow> int option) \<Rightarrow> (string \<times> jsval) list \<Rightarrow> number" where
  "direct_timestamp dateParse kvs =
     normalizeTimestamp dateParse
       (nullish (property kvs ''timestamp'') (nullish (property kvs ''time'')
         (nullish (property kvs ''t'') (nullish (property kvs ''date'') (property kvs ''0'')))))"

definition direct_price :: "(string \<times> jsval) list \<Rightarrow> number" where
  "direct_price kvs =
     normalizePrice
       (nullish (property kvs ''price_usd'') (nullish (property kvs ''price'')
         (nullish (property kvs ''value'') (nullish (property kvs ''usd'')
           (nullish (property kvs ''p'') (nullish (property kvs ''close'') (property kvs ''1'')))))))"

text \<open>
  \<open>normalizePoints\<close> (app.js, lines 109-127): the loop that keeps what normalizes, the sort
  by timestamp (\<open>Array.prototype.sort\<close> is stable; the comparator is a difference of finite
  numbers), and the loop that overwrites the last kept sample on an equal timestamp.
\<close>

definition keep_normalized :: "(string \<Rightarrow> int option) \<Rightarrow> jsval list \<Rightarrow> sample list" where
  "keep_normalized dateParse points =
     foldl (\<lambda>normalized point.
              case normalizePoint dateParse point of
                None \<Rightarrow> normalized
              | Some norm_pt \<Rightarrow> normalized @ [norm_pt]) [] points"

definition dedupe_step :: "sample list \<Rightarrow> sample \<Rightarrow> sample list" where
  "dedupe_step deduped point =
     (if deduped \<noteq> [] \<and> timestamp (last deduped) = timestamp point
      then deduped[length deduped - 1 := point]
      else deduped @ [point])"

definition dedupe :: "sample list \<Rightarrow> sample list" where
  "dedupe normalized = foldl dedupe_step [] normalized"

definition normalizePoints :: "(string \<Rightarrow> int option) \<Rightarrow> jsval \<Rightarrow> sample list" where
  "normalizePoints dateParse points =
     (case points of
        JArr ps \<Rightarrow> dedupe (sort_key timestamp (keep_normalized dateParse ps))
      | _ \<Rightarrow> [])"

text \<open>
  What the deduplicating loop has built after reading the sorted list \<open>xs\<close>: strictly
  ascending timestamps, the same timestamps as \<open>xs\<close>, and for each of them the last sample of
  \<open>xs\<close> that carries it.
\<close>

definition dedupe_inv :: "sample list \<Rightarrow> sample list \<Rightarrow> bool" where
  "dedupe_inv xs ds \<longleftrightarrow>
     sorted_wrt (<) (map timestamp ds)
     \<and> timestamp ` set ds = timestamp ` set xs
     \<and> (\<forall>s\<in>set ds. s = last (filter (\<lambda>y. timestamp y = timestamp s) xs))
     \<and> (xs \<noteq> [] \<longrightarrow> ds \<noteq> [] \<and> last ds = last xs)"

text \<open>A normalized series handed back as a raw collection: the objects the normalizer built.\<close>

definition sample_object :: "sample \<Rightarrow> jsval" where
  "sample_object s =
     JObj [(''timestamp'', JNum (Fin (timestamp s))), (''price_usd'', JNum (Fin (price_usd s)))]"

definition series_value :: "sample list \<Rightarrow> jsval" where
  "series_value ss = JArr (map sample_object ss)"

definition no_dateParse :: "string \<Rightarrow> int option" where
  \<comment> \<open>A \<open>Date.parse\<close> that rejects every string, for concrete evaluations.\<close>
  "no_dateParse s = None"

section \<open>Downsampling\<close>

text \<open>
  \<open>downsample\<close> (app.js, lines 129-152) compares objects by identity
  (\<open>sampled[sampled.length - 1] !== last\<close>) and by content (in \<open>ensure\<close>). The arrays it is
  called on hold pairwise distinct objects (they come from \<open>normalizePoints\<close>, \<open>filter\<close> and
  \<open>slice\<close>), so the object in slot \<open>i\<close> of \<open>points\<close> is represented by the pair of \<open>i\<close> and
  its value: identity is the first component, content the second.
\<close>

type_synonym sample_ref = "nat \<times> sample"

definition Math_ceil :: "rat \<Rightarrow> int" where
  "Math_ceil x = \<lceil>x\<rceil>"

text \<open>
  The sampling loop \<open>for (let i = 0; i < points.length; i += step)\<close>. With \<open>step = 0\<close> it
  does not end, which is the value \<open>None\<close>.
\<close>

partial_function (option) sample_loop ::
  "sample_ref list \<Rightarrow> nat \<Rightarrow> nat \<Rightarrow> sample_ref list \<Rightarrow> sample_ref list option" where
  "sample_loop points step i sampled =
     (if i < length points then sample_loop points step (i + step) (sampled @ [points ! i])
      else Some sampled)"

declare sample_loop.simps [code]

definition ensure :: "sample_ref \<Rightarrow> sample_ref list \<Rightarrow> sample_ref list" where
  "ensure pt sampled =
     (if \<not> list_ex (\<lambda>item. timestamp (snd item) = timestamp (snd pt)
                            \<and> price_usd (snd item) = price_usd (snd pt)) sampled
      then sampled @ [pt]
      else sampled)"

text \<open>
  \<open>limit\<close> is a natural number. For \<open>limit = 0\<close> the quotient is \<open>Infinity\<close>, so the loop
  takes the element at index 0 and stops. Otherwise the quotient of the length by the
  limit is a double division; for lengths below \<open>2\<^sup>5\<^sup>3\<close> its rounding does not reach an
  integer the exact quotient is not, so \<open>Math.ceil\<close> of it is the ceiling of the exact
  quotient.
\<close>

definition downsample :: "sample list \<Rightarrow> nat \<Rightarrow> sample list option" where
  "downsample points limit =
     (if length points \<le> limit then Some points
      else
        let refs = enumerate 0 points in
        case (if limit = 0 then Some [refs ! 0]
              else sample_loop refs
                     (nat (Math_ceil (of_nat (length points) / of_nat limit))) 0 [])
        of
          None \<Rightarrow> None
        | Some sampled \<Rightarrow>
            let lastPt = refs ! (length refs - 1);
                sampled1 = (if fst (sampled ! (length sampled - 1)) \<noteq> fst lastPt
                            then sampled @ [lastPt] else sampled);
                minPt = foldl (\<lambda>mn pt. if price_usd (snd pt) < price_usd (snd mn) then pt else mn)
                          (refs ! 0) refs;
                maxPt = foldl (\<lambda>mx pt. if price_usd (snd pt) > price_usd (snd mx) then pt else mx)
                          (refs ! 0) refs;
                sampled2 = ensure maxPt (ensure minPt sampled1)
            in Some (map snd (sort_key (\<lambda>a. timestamp (snd a)) sampled2)))"

text \<open>Two concrete series for the downsampler: five and eight samples, one per millisecond.\<close>

definition series5 :: "sample list" where
  "series5 =
     [\<lparr>timestamp = 1, price_usd = 5\<rparr>, \<lparr>timestamp = 2, price_usd = 1\<rparr>,
      \<lparr>timestamp = 3, price_usd = 5\<rparr>, \<lparr>timestamp = 4, price_usd = 9\<rparr>,
      \<lparr>timestamp = 5, price_usd = 5\<rparr>]"

definition series8 :: "sample list" where
  "series8 =
     [\<lparr>timestamp = 1, price_usd = 5\<rparr>, \<lparr>timestamp = 2, price_usd = 1\<rparr>,
      \<lparr>timestamp = 3, price_usd = 9\<rparr>, \<lparr>timestamp = 4, price_usd = 5\<rparr>,
      \<lparr>timestamp = 5, price_usd = 5\<rparr>, \<lparr>timestamp = 6, price_usd = 5\<rparr>,
      \<lparr>timestamp = 7, price_usd = 5\<rparr>, \<lparr>timestamp = 8, price_usd = 5\<rparr>]"

text \<open>
  The downsampler in the words of the specification (4.3): the stride is the length over
  the limit, rounded up; every stride-th sample from index 0 on is taken; the last sample
  is added when its index is not on the stride; a sample is then included only if no
  sample already there has its timestamp and price.
\<close>

definition spec_stride :: "nat \<Rightarrow> nat \<Rightarrow> nat" where
  "spec_stride n k = (n + k - 1) div k"

definition spec_taken :: "sample list \<Rightarrow> nat \<Rightarrow> sample list" where
  "spec_taken S k =
     (let stride = spec_stride (length S) k;
          picked = map (\<lambda>i. S ! i) (filter (\<lambda>i. stride dvd i) [0..<length S])
      in if stride dvd (length S - 1) then picked else picked @ [last S])"

definition spec_include :: "sample \<Rightarrow> sample list \<Rightarrow> sample list" where
  "spec_include p xs =
     (if \<exists>q\<in>set xs. timestamp q = timestamp p \<and> price_usd q = price_usd p then xs
      else xs @ [p])"

definition series3 :: "sample list" where
  "series3 =
     [\<lparr>timestamp = 1, price_usd = 1\<rparr>, \<lparr>timestamp = 2, price_usd = 5\<rparr>,
      \<lparr>timestamp = 3, price_usd = 9\<rparr>]"

section \<open>Time window\<close>

text \<open>
  \<open>applyTimeWindow\<close> (app.js, lines 154-161), with \<open>Date.now()\<close> as the parameter \<open>now\<close>. The
  function reads nothing of a point but its \<open>timestamp\<close>, a number that need not be finite:
  \<open>ts\<close> is that reading, and the points are of any type. \<open>points[points.length - 1]\<close> is read
  of a non-empty array only.
\<close>

definition applyTimeWindow :: "rat \<Rightarrow> ('a \<Rightarrow> number) \<Rightarrow> 'a list \<Rightarrow> number \<Rightarrow> 'a list" where
  "applyTimeWindow now ts points windowMs =
     (if points = [] then points
      else case windowMs of
        Fin w \<Rightarrow>
          let latestTimestamp = ts (points ! (length points - 1));
              anchor = (case latestTimestamp of Fin t \<Rightarrow> t | _ \<Rightarrow> now);
              cutoff = minus_double anchor w
          in filter (\<lambda>point. ge_number (ts point) cutoff) points
      | _ \<Rightarrow> points)"

text \<open>
  The earlier \<open>applyTimeWindow\<close> (app.js, lines 341-345), used when a real-time timeframe
  falls back to the cache: its cutoff is always measured from \<open>Date.now()\<close>.
\<close>

definition applyTimeWindow_now :: "rat \<Rightarrow> ('a \<Rightarrow> number) \<Rightarrow> 'a list \<Rightarrow> number \<Rightarrow> 'a list" where
  "applyTimeWindow_now now ts points windowMs =
     (case windowMs of
        Fin w \<Rightarrow>
          (let cutoff = minus_double now w
           in filter (\<lambda>point. ge_number (ts point) cutoff) points)
      | _ \<Rightarrow> points)"

text \<open>The timestamp of a sample, as the number the window reads.\<close>

definition sample_timestamp :: "sample \<Rightarrow> number" where
  "sample_timestamp s = Fin (timestamp s)"

text \<open>Points that carry nothing but a timestamp, finite or not, for concrete evaluations.\<close>

definition sparse_points :: "number list" where
  "sparse_points = [Fin 1700000000000, Fin 1700100000000]"

definition broken_points :: "number list" where
  "broken_points = [Fin 1700000000000, Fin 1700100000000, NaN]"

section \<open>The chart-data request\<close>

record config =
  windowMs :: number
  limit :: nat

text \<open>
  A lookup in \<open>TIMEFRAME_CONFIG\<close> (app.js, lines 9-18). The table is a plain object, so the
  lower-case names it inherits from \<open>Object.prototype\<close> also give a truthy value, one with
  neither \<open>windowMs\<close> nor \<open>limit\<close>.
\<close>

datatype config_entry = Own config | Inherited | Missing

definition TIMEFRAME_CONFIG :: "string \<Rightarrow> config_entry" where
  "TIMEFRAME_CONFIG key =
     (if key = ''1h'' then Own \<lparr>windowMs = Fin (1 * 60 * 60 * 1000), limit = 120\<rparr>
      else if key = ''6h'' then Own \<lparr>windowMs = Fin (6 * 60 * 60 * 1000), limit = 150\<rparr>
      else if key = ''24h'' then Own \<lparr>windowMs = Fin (24 * 60 * 60 * 1000), limit = 200\<rparr>
      else if key = ''1y'' then Own \<lparr>windowMs = Fin (365 * 24 * 60 * 60 * 1000), limit = 500\<rparr>
      else if key = ''1y+'' then Own \<lparr>windowMs = PosInf, limit = 500\<rparr>
      else if key = ''long'' then Own \<lparr>windowMs = PosInf, limit = 500\<rparr>
      else if key = ''max'' then Own \<lparr>windowMs = PosInf, limit = 500\<rparr>
      else if key = ''all'' then Own \<lparr>windowMs = PosInf, limit = 500\<rparr>
      else if key = ''constructor'' \<or> key = ''__proto__'' then Inherited
      else Missing)"

definition toLowerCase :: "string \<Rightarrow> string" where
  "toLowerCase s =
     map (\<lambda>c. let k = (of_char c :: nat) in
               if (65 \<le> k \<and> k \<le> 90) \<or> (192 \<le> k \<and> k \<le> 222 \<and> k \<noteq> 215)
               then char_of (k + 32) else c) s"

definition slice_last :: "nat \<Rightarrow> 'a list \<Rightarrow> 'a list" where
  \<comment> \<open>\<open>xs.slice(-k)\<close> for \<open>k \<le> xs.length\<close>; \<open>slice(-0)\<close> is the whole array.\<close>
  "slice_last k xs = (if k = 0 then xs else drop (length xs - k) xs)"

datatype response = Json200 "sample list" | Error400 string | Error502 string

text \<open>
  The handler of \<open>/api/chart-data\<close> (app.js, lines 163-186). \<open>query\<close> is
  \<open>req.query.timeframe\<close> when it is a string; \<open>loaded\<close> is what awaiting the cache gives, the
  parsed collection or the failure. The answer is \<open>None\<close> if the handler does not return.
\<close>

definition timeframe_of :: "string option \<Rightarrow> string" where
  "timeframe_of query =
     (let timeframeRaw = (case query of Some q \<Rightarrow> q | None \<Rightarrow> ''all'');
          t = toLowerCase (trim timeframeRaw)
      in if t = [] then ''all'' else t)"

definition windowed_or_tail :: "rat \<Rightarrow> sample list \<Rightarrow> number \<Rightarrow> nat \<Rightarrow> sample list" where
  "windowed_or_tail now normalized w n_limit =
     (let windowed = applyTimeWindow now sample_timestamp normalized w
      in if length windowed < 2
         then slice_last (min n_limit (length normalized)) normalized
         else windowed)"

definition chart_data ::
  "(string \<Rightarrow> int option) \<Rightarrow> rat \<Rightarrow> string + jsval \<Rightarrow> string option \<Rightarrow> response option" where
  "chart_data dateParse now loaded query =
     (let timeframe = timeframe_of query in
      case TIMEFRAME_CONFIG timeframe of
        Missing \<Rightarrow> Some (Error400 ''Unsupported timeframe'')
      | entry \<Rightarrow>
          (case loaded of
             Inl err \<Rightarrow> Some (Error502 ''Failed to load chart data'')
           | Inr data \<Rightarrow>
               let normalized = normalizePoints dateParse data;
                   n_limit = (case entry of Own cfg \<Rightarrow> if 0 < limit cfg then limit cfg else 500
                              | _ \<Rightarrow> 500);
                   w = (case entry of Own cfg \<Rightarrow> windowMs cfg | _ \<Rightarrow> NaN)
               in map_option Json200 (downsample (windowed_or_tail now normalized w n_limit) n_limit)))"

text \<open>
  The cache-backed pipeline in the words of the specification (4.6, step 2, with the
  window of 4.2 anchored at the last sample of the series): normalize; window by
  \<open>windowMs\<close>; if fewer than 2 samples are left, take instead the tail of the whole series,
  as many samples as the limit; downsample to the limit. The cutoff \<open>anchor - windowMs\<close> and
  the comparison with it are those of numbers.
\<close>

definition spec_dataset_window :: "sample list \<Rightarrow> number \<Rightarrow> sample list" where
  "spec_dataset_window series w =
     (case w of
        Fin d \<Rightarrow>
          filter (\<lambda>s. ge_number (Fin (timestamp s)) (minus_double (timestamp (last series)) d))
            series
      | _ \<Rightarrow> series)"

definition spec_tail :: "nat \<Rightarrow> 'a list \<Rightarrow> 'a list" where
  "spec_tail k xs = drop (length xs - k) xs"

definition spec_cache_backed :: "(string \<Rightarrow> int option) \<Rightarrow> jsval \<Rightarrow> config \<Rightarrow> sample list option" where
  "spec_cache_backed dateParse cache cfg =
     (let series = normalizePoints dateParse cache;
          windowed = spec_dataset_window series (windowMs cfg);
          chosen = (if length windowed < 2 then spec_tail (limit cfg) series else windowed)
      in downsample chosen (limit cfg))"

section \<open>The cache loader\<close>

text \<open>
  \<open>loadLongTermData\<close> (app.js, lines 23-35). The slot \<open>longTermDataPromise\<close> is \<open>null\<close>
  (\<open>None\<close>) or holds a promise, pending with the callers that await it, or fulfilled with the
  parsed document. Requests run one at a time between suspensions, so the loader is two
  transitions: a call, and the settling of the read-and-parse chain.
\<close>

datatype promise = Pending "nat list" | Fulfilled jsval

definition array_or_empty :: "jsval \<Rightarrow> jsval" where
  "array_or_empty data = (if isArray data then data else JArr [])"

text \<open>
  A call by caller \<open>c\<close>: the new slot, the caller's result when the promise is already
  fulfilled, and whether the call started a read of the file.
\<close>

definition loadLongTermData ::
  "nat \<Rightarrow> promise option \<Rightarrow> promise option \<times> (string + jsval) option \<times> bool" where
  "loadLongTermData c slot =
     (case slot of
        None \<Rightarrow> (Some (Pending [c]), None, True)
      | Some (Pending waiting) \<Rightarrow> (Some (Pending (waiting @ [c])), None, False)
      | Some (Fulfilled data) \<Rightarrow> (slot, Some (Inr (array_or_empty data)), False))"

text \<open>
  The chain \<open>readFile(...).then(JSON.parse).catch(...)\<close> settles, with the message of the
  error thrown by the read or the parse (\<open>Inl\<close>) or with the parsed value (\<open>Inr\<close>): the new
  slot and what each awaiting caller gets.
\<close>

definition settle ::
  "string + jsval \<Rightarrow> promise option \<Rightarrow> promise option \<times> (nat \<times> (string + jsval)) list" where
  "settle outcome slot =
     (case slot of
        Some (Pending waiting) \<Rightarrow>
          (case outcome of
             Inl msg \<Rightarrow>
               (None, map (\<lambda>c. (c, Inl (''Failed to load historical cache: '' @ msg))) waiting)
           | Inr data \<Rightarrow>
               (Some (Fulfilled data), map (\<lambda>c. (c, Inr (array_or_empty data))) waiting))
      | _ \<Rightarrow> (slot, []))"

definition calls :: "nat list \<Rightarrow> promise option \<Rightarrow> promise option" where
  \<comment> \<open>The slot after the callers \<open>cs\<close> have called in turn.\<close>
  "calls cs slot = foldl (\<lambda>s c. fst (loadLongTermData c s)) slot cs"

section \<open>Properties of the rounding to doubles\<close>

lemma round_half_even_of_int: "round_half_even (of_int m) = m"
  by (simp add: round_half_even_def)

lemma upto_find_first:
  fixes P :: "int \<Rightarrow> bool"
  assumes "lo \<le> u" "u \<le> hi" "P u" "\<forall>v. lo \<le> v \<and> v < u \<longrightarrow> \<not> P v"
  shows "List.find P [lo..hi] = Some u"
proof -
  let ?i = "nat (u - lo)"
  have len: "?i < length [lo..hi]" using assms by simp
  have at: "[lo..hi] ! ?i = u" using assms by simp
  have before: "\<not> P ([lo..hi] ! j)" if "j < ?i" for j
  proof -
    from that assms have "[lo..hi] ! j = lo + int j" by simp
    moreover from that have "lo + int j < u" by linarith
    ultimately show ?thesis using assms(4) by simp
  qed
  have "?i < length [lo..hi] \<and> P ([lo..hi] ! ?i) \<and> u = [lo..hi] ! ?i
          \<and> (\<forall>j<?i. \<not> P ([lo..hi] ! j))"
    unfolding at using len before assms(3) by blast
  then show ?thesis
    unfolding find_Some_iff by (rule exI)
qed

lemma upto_find_le:
  fixes P :: "int \<Rightarrow> bool"
  assumes "lo \<le> u" "u \<le> hi" "P u"
  shows "\<exists>v. List.find P [lo..hi] = Some v \<and> lo \<le> v \<and> v \<le> u \<and> P v"
proof (cases "List.find P [lo..hi]")
  case None
  with assms show ?thesis by (auto simp: find_None_iff)
next
  case (Some v)
  then obtain i where i: "i < length [lo..hi]" "P ([lo..hi] ! i)" "v = [lo..hi] ! i"
    "\<forall>j<i. \<not> P ([lo..hi] ! j)"
    unfolding find_Some_iff by blast
  from i(1) have vi: "[lo..hi] ! i = lo + int i" by simp
  have "v \<le> u"
  proof (rule ccontr)
    assume "\<not> v \<le> u"
    with i(3) vi have "nat (u - lo) < i" using assms by linarith
    with i(4) have "\<not> P ([lo..hi] ! nat (u - lo))" by blast
    moreover have "[lo..hi] ! nat (u - lo) = u" using assms by simp
    ultimately show False using assms(3) by simp
  qed
  with Some i vi show ?thesis by auto
qed

text \<open>Integers below \<open>2\<^sup>5\<^sup>3\<close> in magnitude are doubles.\<close>

lemma to_double_of_int:
  assumes "\<bar>k\<bar> < 2 ^ 53"
  shows "to_double (of_int k) = Fin (of_int k)"
proof -
  let ?x = "of_int k :: rat"
  let ?P = "\<lambda>u. \<bar>?x\<bar> < 2 powi (u + 53)"
  have "?P 0"
  proof -
    have "\<bar>?x\<bar> = of_int \<bar>k\<bar>" by simp
    also have "\<dots> < of_int (2 ^ 53)" using assms by (simp only: of_int_less_iff)
    finally show ?thesis by simp
  qed
  have "\<exists>v. List.find ?P [- 1074..971] = Some v \<and> - 1074 \<le> v \<and> v \<le> 0 \<and> ?P v"
    by (rule upto_find_le [of "- 1074" 0 971 ?P, OF _ _ \<open>?P 0\<close>]) simp_all
  then obtain u where u: "List.find ?P exponents = Some u" "- 1074 \<le> u" "u \<le> 0"
    unfolding exponents_def by blast
  define n where "n = nat (- u)"
  have pw: "(2::rat) powi u = 1 / 2 ^ n"
    using u(3) by (simp add: n_def power_int_def field_simps)
  have "\<bar>?x\<bar> / 2 powi u = of_int (\<bar>k\<bar> * 2 ^ n)" by (simp add: pw)
  then have r: "round_half_even (\<bar>?x\<bar> / 2 powi u) = \<bar>k\<bar> * 2 ^ n"
    by (simp only: round_half_even_of_int)
  have y: "of_int (\<bar>k\<bar> * 2 ^ n) * (2::rat) powi u = of_int \<bar>k\<bar>" by (simp add: pw)
  have small: "\<not> (2::rat) powi 1024 \<le> of_int \<bar>k\<bar>"
  proof -
    have "(of_int \<bar>k\<bar> :: rat) < of_int (2 ^ 53)" using assms by (simp only: of_int_less_iff)
    also have "\<dots> \<le> 2 powi 1024" by simp
    finally show ?thesis by simp
  qed
  show ?thesis
    unfolding to_double_def u(1) option.case Let_def r y using small
    by (cases "0 \<le> k") simp_all
qed

lemma to_double_numeral:
  "numeral k < (2 ^ 53 :: int) \<Longrightarrow> to_double (numeral k) = Fin (numeral k)"
  using to_double_of_int [of "numeral k"] by simp

lemma to_double_0: "to_double 0 = Fin 0"
  using to_double_of_int [of 0] by simp

lemma to_double_at:
  assumes "- 1074 \<le> u" "u \<le> 971" "\<bar>x\<bar> < 2 powi (u + 53)"
    and "u = - 1074 \<or> 2 powi (u + 52) \<le> \<bar>x\<bar>"
  shows "to_double x =
           (let y = of_int (round_half_even (\<bar>x\<bar> / 2 powi u)) * 2 powi u
            in if 2 powi 1024 \<le> y then (if 0 < x then PosInf else NegInf)
               else Fin (if 0 \<le> x then y else - y))"
proof -
  have "\<not> \<bar>x\<bar> < 2 powi (v + 53)" if "- 1074 \<le> v \<and> v < u" for v
  proof -
    from that assms(4) have lo: "2 powi (u + 52) \<le> \<bar>x\<bar>" by auto
    have "(2::rat) powi (v + 53) \<le> 2 powi (u + 52)"
      using that by (intro power_int_increasing) simp_all
    with lo show ?thesis by simp
  qed
  then have "List.find (\<lambda>u. \<bar>x\<bar> < 2 powi (u + 53)) exponents = Some u"
    unfolding exponents_def using assms(1-3) by (intro upto_find_first) blast+
  then show ?thesis unfolding to_double_def by simp
qed

lemma to_double_overflow:
  assumes "2 powi 1024 \<le> \<bar>x\<bar>"
  shows "to_double x = (if 0 < x then PosInf else NegInf)"
proof -
  have "\<not> \<bar>x\<bar> < 2 powi (u + 53)" if "u \<in> set exponents" for u
  proof -
    from that have "u \<le> 971" unfolding exponents_def by (simp only: set_upto atLeastAtMost_iff)
    then have "u + 53 \<le> 1024" by simp
    then have "(2::rat) powi (u + 53) \<le> 2 powi 1024"
      by (intro power_int_increasing) simp_all
    with assms show ?thesis by simp
  qed
  then have "List.find (\<lambda>u. \<bar>x\<bar> < 2 powi (u + 53)) exponents = None"
    by (simp add: find_None_iff)
  then show ?thesis by (simp add: to_double_def)
qed

lemma round_half_even_near:
  assumes "of_int m - 1 / 2 < r" and "r < of_int m + 1 / 2"
  shows "round_half_even r = m"
proof -
  consider "\<lfloor>r\<rfloor> = m" | "\<lfloor>r\<rfloor> = m - 1"
  proof -
    have "of_int (m - 1) \<le> r" using assms(1) by simp
    then have "m - 1 \<le> \<lfloor>r\<rfloor>" by (simp only: le_floor_iff)
    moreover have "r < of_int (m + 1)" using assms(2) by simp
    then have "\<lfloor>r\<rfloor> < m + 1" by (simp only: floor_less_iff)
    ultimately show ?thesis using that by linarith
  qed
  then show ?thesis
  proof cases
    case 1
    then have "r - of_int \<lfloor>r\<rfloor> < 1 / 2" using assms(2) by simp
    with 1 show ?thesis by (simp add: round_half_even_def Let_def)
  next
    case 2
    then have "1 / 2 < r - of_int \<lfloor>r\<rfloor>" using assms(1) by simp
    with 2 show ?thesis by (simp add: round_half_even_def Let_def)
  qed
qed

lemma times_double_numeral:
  "(numeral a * numeral b :: int) < 2 ^ 53 \<Longrightarrow>
     times_double (numeral a) (numeral b) = Fin (numeral a * numeral b)"
  using to_double_of_int [of "numeral a * numeral b"] by (simp add: times_double_def)

lemma times_double_0: "times_double 0 b = Fin 0"
  by (simp add: times_double_def to_double_0)

lemma minus_double_of_int:
  "\<bar>a - b\<bar> < 2 ^ 53 \<Longrightarrow> minus_double (of_int a) (of_int b) = Fin (of_int (a - b))"
  using to_double_of_int [of "a - b"] by (simp add: minus_double_def)

lemma minus_double_numeral:
  "\<bar>numeral a - numeral b :: int\<bar> < 2 ^ 53 \<Longrightarrow>
     minus_double (numeral a) (numeral b) = Fin (of_int (numeral a - numeral b))"
  using minus_double_of_int [of "numeral a" "numeral b"] by (simp only: of_int_numeral)

lemma round_half_even_numeral: "round_half_even (numeral k) = numeral k"
  using round_half_even_of_int [of "numeral k"] by simp

text \<open>Below half of the least positive double, the rounding gives zero.\<close>

lemma to_double_underflow:
  assumes "\<bar>x\<bar> < 2 powi (- 1075)"
  shows "to_double x = Fin 0"
proof -
  have "(2::rat) powi (- 1075) \<le> 2 powi (- 1074 + 53)"
    by (intro power_int_increasing) simp_all
  with assms have lt: "\<bar>x\<bar> < 2 powi (- 1074 + 53)" by linarith
  have half: "\<bar>x\<bar> / 2 powi (- 1074) < 1 / 2"
  proof -
    have "(2::rat) powi (- 1075) = 2 powi (- 1074) * 2 powi (- 1)"
      using power_int_add [of "2::rat" "- 1074" "- 1"] by simp
    then have "\<bar>x\<bar> < 2 powi (- 1074) * (1 / 2)" using assms by (simp add: power_int_minus)
    moreover have "(0::rat) < 2 powi (- 1074)" by simp
    ultimately show ?thesis by (simp add: pos_divide_less_eq mult.commute)
  qed
  have r: "round_half_even (\<bar>x\<bar> / 2 powi (- 1074)) = 0"
    by (rule round_half_even_near) (use half in simp_all)
  have pos: "\<not> (2::rat) powi 1024 \<le> 0"
  proof -
    have "(0::rat) < 2 powi 1024" by simp
    then show ?thesis by linarith
  qed
  have "to_double x =
           (let y = of_int (round_half_even (\<bar>x\<bar> / 2 powi (- 1074))) * 2 powi (- 1074)
            in if 2 powi 1024 \<le> y then (if 0 < x then PosInf else NegInf)
               else Fin (if 0 \<le> x then y else - y))"
    by (rule to_double_at) (use lt in simp_all)
  also have "\<dots> = Fin 0"
    unfolding r Let_def using pos by (simp only: of_int_0 mult_zero_left if_False minus_zero if_cancel)
  finally show ?thesis .
qed

text \<open>A double that is not an integer: \<open>2.5\<close>.\<close>

lemma to_double_5_2: "to_double (5 / 2) = Fin (5 / 2)"
  by (subst to_double_at [of "- 51"]) (simp_all add: round_half_even_numeral Let_def)

section \<open>Properties of the coercions\<close>

lemma Math_round_of_int: "Math_round (of_int k) = of_int k"
proof -
  have "\<lfloor>(of_int k :: rat) + 1 / 2\<rfloor> = k" by (simp add: floor_eq_iff)
  then show ?thesis by (simp add: Math_round_def)
qed

lemma Math_round_numeral: "Math_round (numeral k) = numeral k"
  using Math_round_of_int [of "numeral k"] by simp

lemma Math_round_0: "Math_round 0 = 0"
  using Math_round_of_int [of 0] by simp

lemma Math_round_number_integral: "Math_round_number n = Fin t \<Longrightarrow> t \<in> \<int>"
  by (cases n) (auto simp: Math_round_def)

lemmas double_eval = Math_round_numeral Math_round_0 times_double_numeral times_double_0

text \<open>
  C1, as stated, fails: \<open>1700000000\<close> is greater than \<open>10\<^sup>9\<close> and is still scaled by 1000, not
  rounded as it is.
\<close>

theorem normalizeTimestamp_threshold_counterexample:
  "(1700000000 :: rat) > 10 ^ 9
   \<and> normalizeTimestamp no_dateParse (JNum (Fin 1700000000)) = Fin 1700000000000
   \<and> normalizeTimestamp no_dateParse (JNum (Fin 1700000000)) \<noteq> Fin (Math_round 1700000000)"
  by (simp add: double_eval)

text \<open>
  C1 (amended): for every finite number \<open>v\<close> the classification is by the threshold
  \<open>10\<^sup>1\<^sup>0\<close>: a value above it is taken as milliseconds and rounded as it is, a value at or
  below it is taken as seconds: the result is \<open>Math.round(v * 1000)\<close>, the product being that
  of doubles (it is rounded to a double, and an infinity when it overflows, which
  \<open>Math.round\<close> leaves as it is).
\<close>

theorem normalizeTimestamp_number:
  "normalizeTimestamp dateParse (JNum (Fin v)) =
     (if v > 10 ^ 10 then Fin (Math_round v) else Math_round_number (times_double v 1000))"
  by simp

text \<open>
  Two instances where the product is not the exact one. The double nearest to
  \<open>1700000000.0005\<close> is \<open>1700000000 + 2097 / 2\<^sup>2\<^sup>2\<close>; its product with 1000 rounds to
  \<open>1700000000000.5\<close>, and the timestamp is \<open>1700000000001\<close>. The product of \<open>-10\<^sup>3\<^sup>0\<^sup>6\<close> with 1000
  overflows, and the timestamp is not finite.
\<close>

lemma normalizeTimestamp_rounded_product:
  "normalizeTimestamp dateParse (JNum (Fin (1700000000 + 2097 / 4194304))) = Fin 1700000000001"
proof -
  let ?x = "(1700000000 + 2097 / 4194304) * 1000 :: rat"
  have r: "round_half_even (891289600000262125 / 128) = 6963200000002048"
    by (rule round_half_even_near) simp_all
  have "to_double ?x = Fin (3400000000001 / 2)"
    by (subst to_double_at [of "- 12"]) (simp_all add: r Let_def del: abs_numeral)
  then have "times_double (1700000000 + 2097 / 4194304) 1000 = Fin (3400000000001 / 2)"
    by (simp only: times_double_def)
  moreover have "Math_round (3400000000001 / 2) = 1700000000001"
    by (simp add: Math_round_def floor_eq_iff)
  ultimately show ?thesis by simp
qed

lemma normalizeTimestamp_overflow:
  "normalizeTimestamp dateParse (JNum (Fin (- (10 ^ 306)))) = NegInf"
proof -
  have "to_double (- (10 ^ 306) * 1000) = NegInf"
    by (subst to_double_overflow) simp_all
  then have "times_double (- (10 ^ 306)) 1000 = NegInf"
    by (simp only: times_double_def)
  then show ?thesis by simp
qed

text \<open>
  A decimal literal is rounded like any other value: \<open>1e309\<close> is beyond the doubles, so it is
  \<open>Infinity\<close> and no price; \<open>1e-324\<close> is below half of the least positive double, so it is 0.
\<close>

lemma Number_str_overflow: "Number_str ''1e309'' = PosInf"
proof -
  have "(2::rat) powi 1024 \<le> 10 ^ 309"
    by simp
  then have "to_double (10 ^ 309) = PosInf"
    by (subst to_double_overflow) simp_all
  then show ?thesis
    by (simp add: Number_str_def trim_def unsigned_decimal_def exponent_part_def is_digit_def
        digit_of_def digits_value_def pow10_def isStrWhiteSpaceChar_def all_digits_def)
qed


lemma Number_str_underflow: "Number_str ''1e-324'' = Fin 0"
proof -
  have "\<bar>1 / 10 ^ 324 :: rat\<bar> < 2 powi (- 1075)"
    by (simp add: power_int_minus field_simps)
  then have "to_double (1 / 10 ^ 324) = Fin 0"
    by (rule to_double_underflow)
  then show ?thesis
    by (simp add: Number_str_def trim_def unsigned_decimal_def exponent_part_def is_digit_def
        digit_of_def digits_value_def pow10_def isStrWhiteSpaceChar_def all_digits_def)
qed

lemma normalizePrice_overflow: "normalizePrice (JStr ''1e309'') = NaN"
  by (simp add: Number_str_overflow)

lemma trim_blank:
  assumes "list_all isStrWhiteSpaceChar s"
  shows "trim s = []"
proof -
  have blank: "dropWhile isStrWhiteSpaceChar s = []"
    using assms by (induction s) auto
  show ?thesis unfolding trim_def blank by simp
qed

lemma Number_str_blank: "list_all isStrWhiteSpaceChar s \<Longrightarrow> Number_str s = Fin 0"
  by (simp add: Number_str_def trim_blank)

text \<open>
  C10: an empty or white-space-only string is not rejected. As a timestamp and as a price
  it is the number 0, and a pair of such strings normalizes to the sample with timestamp 0
  and price 0.
\<close>

theorem blank_strings_are_zero:
  assumes "list_all isStrWhiteSpaceChar s" and "list_all isStrWhiteSpaceChar s'"
  shows "normalizeTimestamp dateParse (JStr s) = Fin 0
         \<and> normalizePrice (JStr s') = Fin 0
         \<and> normalizePoint dateParse (JArr [JStr s, JStr s'])
             = Some \<lparr>timestamp = 0, price_usd = 0\<rparr>"
  using assms by (simp add: Number_str_blank double_eval elem_def)

text \<open>The witness is the record \<open>["", ""]\<close> of the claim.\<close>

theorem blank_strings_are_zero_witness:
  "list_all isStrWhiteSpaceChar []
   \<and> normalizeTimestamp no_dateParse (JStr []) = Fin 0
   \<and> normalizePrice (JStr []) = Fin 0
   \<and> normalizePoint no_dateParse (JArr [JStr [], JStr []])
       = Some \<lparr>timestamp = 0, price_usd = 0\<rparr>"
  using blank_strings_are_zero [of "[]" "[]" no_dateParse] by simp

section \<open>Properties of the point normalizer\<close>

text \<open>The first test of \<open>normalizePoint\<close>, \<open>if (!point) return null\<close>.\<close>

lemma normalizePoint_falsy: "\<not> truthy point \<Longrightarrow> normalizePoint dateParse point = None"
  by (cases point) simp_all

text \<open>
  C9, as stated, fails: the record \<open>{value: [1700000000, 5]}\<close> has no direct timestamp, its
  \<open>value\<close> pair normalizes to a sample, and the record is rejected.
\<close>

theorem nested_value_pair_counterexample:
  "property [(''value'', JArr [JNum (Fin 1700000000), JNum (Fin 5)])] ''value''
     = JArr [JNum (Fin 1700000000), JNum (Fin 5)]
   \<and> normalizePoint no_dateParse (JArr [JNum (Fin 1700000000), JNum (Fin 5)])
       = Some \<lparr>timestamp = 1700000000000, price_usd = 5\<rparr>
   \<and> normalizePoint no_dateParse (JObj [(''value'', JArr [JNum (Fin 1700000000), JNum (Fin 5)])])
       = None"
  by (simp add: property_def elem_def double_eval)

text \<open>
  C9 (amended): for a keyed record whose \<open>value\<close> field is an array that normalizes to a
  sample, \<open>normalizePoint\<close> returns that sample whenever the record's direct timestamp
  aliases give a finite timestamp and its direct price aliases do not give a finite price.
\<close>

theorem nested_value_pair:
  assumes "property kvs ''value'' = JArr pair"
    and "normalizePoint dateParse (JArr pair) = Some s"
    and "isFinite (direct_timestamp dateParse kvs)"
    and "\<not> isFinite (direct_price kvs)"
  shows "normalizePoint dateParse (JObj kvs) = Some s"
  using assms
  by (cases "direct_timestamp dateParse kvs"; cases "direct_price kvs")
     (simp_all add: direct_timestamp_def direct_price_def Let_def del: normalizePoint.simps(1))

theorem nested_value_pair_witness:
  "property [(''t'', JNum (Fin 3)), (''value'', JArr [JNum (Fin 1700000000), JNum (Fin 5)])]
       ''value''
     = JArr [JNum (Fin 1700000000), JNum (Fin 5)]
   \<and> normalizePoint no_dateParse (JArr [JNum (Fin 1700000000), JNum (Fin 5)])
       = Some \<lparr>timestamp = 1700000000000, price_usd = 5\<rparr>
   \<and> isFinite (direct_timestamp no_dateParse
        [(''t'', JNum (Fin 3)), (''value'', JArr [JNum (Fin 1700000000), JNum (Fin 5)])])
   \<and> \<not> isFinite (direct_price
        [(''t'', JNum (Fin 3)), (''value'', JArr [JNum (Fin 1700000000), JNum (Fin 5)])])
   \<and> normalizePoint no_dateParse
        (JObj [(''t'', JNum (Fin 3)), (''value'', JArr [JNum (Fin 1700000000), JNum (Fin 5)])])
       = Some \<lparr>timestamp = 1700000000000, price_usd = 5\<rparr>"
proof -
  let ?kvs = "[(''t'', JNum (Fin 3)), (''value'', JArr [JNum (Fin 1700000000), JNum (Fin 5)])]"
  have a: "property ?kvs ''value'' = JArr [JNum (Fin 1700000000), JNum (Fin 5)]"
    by (simp add: property_def)
  have b: "normalizePoint no_dateParse (JArr [JNum (Fin 1700000000), JNum (Fin 5)])
             = Some \<lparr>timestamp = 1700000000000, price_usd = 5\<rparr>"
    by (simp add: elem_def double_eval)
  have c: "isFinite (direct_timestamp no_dateParse ?kvs)"
    by (simp add: direct_timestamp_def property_def double_eval)
  have d: "\<not> isFinite (direct_price ?kvs)"
    by (simp add: direct_price_def property_def)
  from nested_value_pair [OF a b c d] a b c d show ?thesis by blast
qed

section \<open>Properties of the series normalizer\<close>

lemma keep_normalized_acc:
  "foldl (\<lambda>normalized point. case f point of None \<Rightarrow> normalized | Some s \<Rightarrow> normalized @ [s]) acc ps
     = acc @ List.map_filter f ps"
  by (induction ps arbitrary: acc) (auto simp: List.map_filter_simps split: option.splits)

lemma keep_normalized_map_filter:
  "keep_normalized dateParse ps = List.map_filter (normalizePoint dateParse) ps"
  by (simp add: keep_normalized_def keep_normalized_acc)

lemma dedupe_Nil: "dedupe [] = []"
  by (simp add: dedupe_def)

lemma dedupe_snoc: "dedupe (xs @ [x]) = dedupe_step (dedupe xs) x"
  by (simp add: dedupe_def)

lemma dedupe_step_butlast:
  "dedupe_step ds x =
     (if ds \<noteq> [] \<and> timestamp (last ds) = timestamp x then butlast ds @ [x] else ds @ [x])"
proof (cases "ds = []")
  case True
  then show ?thesis by (simp add: dedupe_step_def)
next
  case False
  then obtain ys y where "ds = ys @ [y]" by (metis rev_exhaust)
  then show ?thesis by (simp add: dedupe_step_def list_update_append)
qed

lemma dedupe_inv_sorted:
  "sorted (map timestamp xs) \<Longrightarrow> dedupe_inv xs (dedupe xs)"
proof (induction xs rule: rev_induct)
  case Nil
  then show ?case by (simp add: dedupe_inv_def dedupe_Nil)
next
  case (snoc x xs)
  let ?D = "dedupe xs"
  from snoc.prems have sx: "sorted (map timestamp xs)"
    and le: "\<forall>y\<in>set xs. timestamp y \<le> timestamp x"
    by (auto simp: sorted_append)
  from snoc.IH [OF sx] have inv: "dedupe_inv xs ?D" .
  show ?case
  proof (cases "?D = []")
    case True
    with inv have "xs = []" by (auto simp: dedupe_inv_def)
    then show ?thesis by (simp add: dedupe_def dedupe_step_def dedupe_inv_def)
  next
    case False
    then obtain ys y where D: "?D = ys @ [y]" by (metis rev_exhaust)
    from inv D have ys_lt: "\<forall>s\<in>set ys. timestamp s < timestamp y"
      and ys_sorted: "sorted_wrt (<) (map timestamp ys)"
      by (auto simp: dedupe_inv_def sorted_wrt_append)
    from inv D have keys: "timestamp ` set (ys @ [y]) = timestamp ` set xs"
      and lasts: "\<forall>s\<in>set (ys @ [y]). s = last (filter (\<lambda>z. timestamp z = timestamp s) xs)"
      by (auto simp: dedupe_inv_def)
    from keys have "timestamp y \<in> timestamp ` set xs" by auto
    with le have y_le: "timestamp y \<le> timestamp x" by auto
    show ?thesis
    proof (cases "timestamp y = timestamp x")
      case True
      have new: "dedupe (xs @ [x]) = ys @ [x]"
        using True D by (simp add: dedupe_snoc dedupe_step_butlast)
      have 1: "sorted_wrt (<) (map timestamp (ys @ [x]))"
        using ys_lt ys_sorted True by (simp add: sorted_wrt_append)
      have 2: "timestamp ` set (ys @ [x]) = timestamp ` set (xs @ [x])"
        using keys True by auto
      have 3: "s = last (filter (\<lambda>z. timestamp z = timestamp s) (xs @ [x]))"
        if "s \<in> set (ys @ [x])" for s
      proof (cases "s = x")
        case True
        then show ?thesis by simp
      next
        case False
        with that have "s \<in> set ys" by simp
        with ys_lt True have "timestamp x \<noteq> timestamp s" by auto
        moreover from \<open>s \<in> set ys\<close> lasts
        have "s = last (filter (\<lambda>z. timestamp z = timestamp s) xs)" by simp
        ultimately show ?thesis by simp
      qed
      show ?thesis unfolding new dedupe_inv_def using 1 2 3 by simp
    next
      case False
      with y_le have lt: "timestamp y < timestamp x" by simp
      have new: "dedupe (xs @ [x]) = ys @ [y, x]"
        using False D by (simp add: dedupe_snoc dedupe_step_butlast)
      have 1: "sorted_wrt (<) (map timestamp (ys @ [y, x]))"
        using ys_lt ys_sorted lt by (auto simp: sorted_wrt_append)
      have 2: "timestamp ` set (ys @ [y, x]) = timestamp ` set (xs @ [x])"
        using keys by auto
      have 3: "s = last (filter (\<lambda>z. timestamp z = timestamp s) (xs @ [x]))"
        if "s \<in> set (ys @ [y, x])" for s
      proof (cases "s = x")
        case True
        then show ?thesis by simp
      next
        case False
        with that have in_D: "s \<in> set (ys @ [y])" by simp
        with ys_lt lt have "timestamp x \<noteq> timestamp s" by auto
        moreover from in_D lasts
        have "s = last (filter (\<lambda>z. timestamp z = timestamp s) xs)" by blast
        ultimately show ?thesis by simp
      qed
      show ?thesis unfolding new dedupe_inv_def using 1 2 3 by simp
    qed
  qed
qed

lemma dedupe_subset: "set (dedupe xs) \<subseteq> set xs"
proof (induction xs rule: rev_induct)
  case Nil
  then show ?case by (simp add: dedupe_Nil)
next
  case (snoc x xs)
  have "set (butlast (dedupe xs)) \<subseteq> set (dedupe xs)"
    by (auto dest: in_set_butlastD)
  with snoc show ?case
    by (auto simp: dedupe_snoc dedupe_step_butlast)
qed

lemma dedupe_strictly_sorted:
  "sorted_wrt (<) (map timestamp xs) \<Longrightarrow> dedupe xs = xs"
proof (induction xs rule: rev_induct)
  case Nil
  then show ?case by (simp add: dedupe_Nil)
next
  case (snoc x xs)
  then have IH: "dedupe xs = xs" and lt: "\<forall>y\<in>set xs. timestamp y < timestamp x"
    by (auto simp: sorted_wrt_append)
  have "xs \<noteq> [] \<Longrightarrow> timestamp (last xs) \<noteq> timestamp x"
    using lt last_in_set [of xs] by fastforce
  then show ?case
    by (auto simp: dedupe_snoc IH dedupe_step_butlast)
qed

lemma set_normalizePoints:
  "set (normalizePoints dateParse (JArr ps)) \<subseteq> set (List.map_filter (normalizePoint dateParse) ps)"
  using dedupe_subset [of "sort_key timestamp (keep_normalized dateParse ps)"]
  by (simp add: normalizePoints_def keep_normalized_map_filter)

lemma normalizePoints_array:
  fixes dateParse ps
  defines "N \<equiv> List.map_filter (normalizePoint dateParse) ps"
  shows "sorted_wrt (<) (map timestamp (normalizePoints dateParse (JArr ps)))"
    and "normalizePoints dateParse (JArr ps) =
           map (\<lambda>t. last (filter (\<lambda>s. timestamp s = t) N))
             (sorted_list_of_set (timestamp ` set N))"
proof -
  define S where "S = sort_key timestamp N"
  define D where "D = dedupe S"
  have out: "normalizePoints dateParse (JArr ps) = D"
    by (simp add: normalizePoints_def keep_normalized_map_filter D_def S_def N_def)
  have "sorted (map timestamp S)" by (simp add: S_def)
  then have inv: "dedupe_inv S D" unfolding D_def by (rule dedupe_inv_sorted)
  then have asc: "sorted_wrt (<) (map timestamp D)" by (simp add: dedupe_inv_def)
  have "set (map timestamp D) = timestamp ` set N"
    using inv by (simp add: dedupe_inv_def S_def)
  moreover have "sorted (map timestamp D)" "distinct (map timestamp D)"
    using asc by (simp_all add: strict_sorted_iff)
  ultimately have keys: "sorted_list_of_set (timestamp ` set N) = map timestamp D"
    by (metis sorted_list_of_set.idem_if_sorted_distinct)
  have "last (filter (\<lambda>y. timestamp y = timestamp s) N) = s" if "s \<in> set D" for s
  proof -
    from inv that have "s = last (filter (\<lambda>y. timestamp y = timestamp s) S)"
      by (simp add: dedupe_inv_def)
    then show ?thesis by (simp add: S_def sort_key_stable)
  qed
  then have "map (\<lambda>t. last (filter (\<lambda>s. timestamp s = t) N)) (map timestamp D) = D"
    by (simp add: map_idI)
  then show "normalizePoints dateParse (JArr ps) =
           map (\<lambda>t. last (filter (\<lambda>s. timestamp s = t) N))
             (sorted_list_of_set (timestamp ` set N))"
    unfolding out keys by simp
  show "sorted_wrt (<) (map timestamp (normalizePoints dateParse (JArr ps)))"
    unfolding out by (rule asc)
qed

lemma normalizePoints_strictly_ascending:
  "sorted_wrt (<) (map timestamp (normalizePoints dateParse R))"
proof (cases "isArray R")
  case False
  then show ?thesis by (cases R) (simp_all add: normalizePoints_def)
next
  case True
  then obtain ps where "R = JArr ps" by (cases R) simp_all
  then show ?thesis by (simp add: normalizePoints_array(1))
qed

text \<open>
  C4: the output of \<open>normalizePoints\<close> is strictly ascending by timestamp, for every raw
  collection. It has one sample for each timestamp that a kept record coerces to, and that
  sample is the last one, in input order, among the kept records with that timestamp
  (\<open>List.map_filter\<close> keeps the records that normalize, in input order).
\<close>

theorem normalizePoints_ascending_last_wins:
  "sorted_wrt (<) (map timestamp (normalizePoints dateParse R))
   \<and> normalizePoints dateParse R =
       (let kept = List.map_filter (normalizePoint dateParse) (case R of JArr ps \<Rightarrow> ps | _ \<Rightarrow> [])
        in map (\<lambda>t. last (filter (\<lambda>s. timestamp s = t) kept))
             (sorted_list_of_set (timestamp ` set kept)))"
proof (cases "isArray R")
  case False
  then show ?thesis by (cases R) (simp_all add: normalizePoints_def List.map_filter_simps)
next
  case True
  then obtain ps where R: "R = JArr ps" by (cases R) simp_all
  show ?thesis
    unfolding R using normalizePoints_array [of dateParse ps] by (simp add: Let_def)
qed

lemma normalizeTimestamp_number_integral:
  "normalizeTimestamp dateParse (JNum n) = Fin t \<Longrightarrow> t \<in> \<int>"
  by (cases n) (auto simp: Math_round_def split: if_splits dest: Math_round_number_integral)

lemma normalizeTimestamp_integral:
  "normalizeTimestamp dateParse v = Fin t \<Longrightarrow> t \<in> \<int>"
proof (cases v)
  case (JStr s)
  assume eq: "normalizeTimestamp dateParse v = Fin t"
  show ?thesis
  proof (cases "isFinite (Number_str s)")
    case True
    with eq JStr have "normalizeTimestamp dateParse (JNum (Number_str s)) = Fin t"
      by (simp add: Let_def del: normalizeTimestamp.simps(4))
    then show ?thesis by (rule normalizeTimestamp_number_integral)
  next
    case False
    with eq JStr show ?thesis
      by (auto simp: Let_def time_value_def split: option.splits if_splits)
  qed
qed (auto simp: time_value_def normalizeTimestamp_number_integral split: option.splits simp del: normalizeTimestamp.simps(4))

lemma normalizePoint_integral:
  "normalizePoint dateParse v = Some s \<Longrightarrow> timestamp s \<in> \<int>"
proof (induction dateParse v arbitrary: s rule: normalizePoint.induct)
  case (1 dateParse xs)
  then show ?case
    by (auto simp: Let_def split: number.splits dest: normalizeTimestamp_integral)
next
  case (2 dateParse kvs)
  then show ?case
    by (auto simp: Let_def split: number.splits if_splits dest: normalizeTimestamp_integral
             simp del: normalizePoint.simps(1))
qed simp_all

lemma normalizePoint_sample_object:
  assumes "timestamp s \<in> \<int>" and "timestamp s > 10 ^ 10 \<or> timestamp s = 0"
  shows "normalizePoint dateParse (sample_object s) = Some s"
proof -
  from assms(1) obtain k where k: "timestamp s = of_int k" by (auto elim: Ints_cases)
  have "Math_round (timestamp s) = timestamp s"
    unfolding k by (rule Math_round_of_int)
  with assms(2) show ?thesis
    by (auto simp: sample_object_def property_def double_eval)
qed

lemma keep_normalized_samples:
  assumes "\<forall>s\<in>set ss. timestamp s \<in> \<int> \<and> (timestamp s > 10 ^ 10 \<or> timestamp s = 0)"
  shows "List.map_filter (normalizePoint dateParse) (map sample_object ss) = ss"
  using assms by (induction ss) (simp_all add: List.map_filter_simps normalizePoint_sample_object)

text \<open>
  C5 (amended): normalizing a normalized series again gives the same series whenever every
  timestamp of the series is greater than \<open>10\<^sup>1\<^sup>0\<close> or equal to 0.
\<close>

theorem normalizePoints_idempotent:
  assumes "\<forall>s\<in>set (normalizePoints dateParse R). timestamp s > 10 ^ 10 \<or> timestamp s = 0"
  shows "normalizePoints dateParse (series_value (normalizePoints dateParse R))
           = normalizePoints dateParse R"
proof -
  let ?D = "normalizePoints dateParse R"
  have asc: "sorted_wrt (<) (map timestamp ?D)"
    by (rule normalizePoints_strictly_ascending)
  have "timestamp s \<in> \<int>" if "s \<in> set ?D" for s
  proof (cases R)
    case (JArr ps)
    with that set_normalizePoints [of dateParse ps]
    have "s \<in> set (List.map_filter (normalizePoint dateParse) ps)" by auto
    then obtain p where "normalizePoint dateParse p = Some s"
      by (auto simp: List.map_filter_def)
    then show ?thesis by (rule normalizePoint_integral)
  qed (use that in \<open>simp_all add: normalizePoints_def\<close>)
  with assms have "List.map_filter (normalizePoint dateParse) (map sample_object ?D) = ?D"
    by (intro keep_normalized_samples) auto
  moreover have "normalizePoints dateParse (JArr xs)
      = dedupe (sort_key timestamp (List.map_filter (normalizePoint dateParse) xs))" for xs
    by (simp add: normalizePoints_def keep_normalized_map_filter)
  ultimately have "normalizePoints dateParse (series_value ?D) = dedupe (sort_key timestamp ?D)"
    unfolding series_value_def by simp
  also have "sort_key timestamp ?D = ?D"
    using asc by (intro sort_key_id_if_sorted) (simp add: strict_sorted_iff)
  also have "dedupe ?D = ?D"
    using asc by (rule dedupe_strictly_sorted)
  finally show ?thesis .
qed

lemmas normalizePoints_eval =
  normalizePoints_def keep_normalized_def dedupe_def dedupe_step_def elem_def property_def
  sample_object_def series_value_def double_eval Number_str_def trim_def

theorem normalizePoints_idempotent_witness:
  "normalizePoints no_dateParse
       (JArr [JArr [JNum (Fin 1700000000), JNum (Fin 5)], JArr [JStr [], JStr []]])
     = [\<lparr>timestamp = 0, price_usd = 0\<rparr>, \<lparr>timestamp = 1700000000000, price_usd = 5\<rparr>]
   \<and> normalizePoints no_dateParse (series_value (normalizePoints no_dateParse
        (JArr [JArr [JNum (Fin 1700000000), JNum (Fin 5)], JArr [JStr [], JStr []]])))
     = normalizePoints no_dateParse
        (JArr [JArr [JNum (Fin 1700000000), JNum (Fin 5)], JArr [JStr [], JStr []]])"
proof -
  let ?R = "JArr [JArr [JNum (Fin 1700000000), JNum (Fin 5)], JArr [JStr [], JStr []]]"
  have v: "normalizePoints no_dateParse ?R
          = [\<lparr>timestamp = 0, price_usd = 0\<rparr>, \<lparr>timestamp = 1700000000000, price_usd = 5\<rparr>]"
    by (simp add: normalizePoints_eval)
  then have h: "\<forall>s\<in>set (normalizePoints no_dateParse ?R). timestamp s > 10 ^ 10 \<or> timestamp s = 0"
    by simp
  show ?thesis by (intro conjI v normalizePoints_idempotent [OF h])
qed

text \<open>
  C5, as stated, fails: the record \<open>[2592000, 35]\<close> (31 January 1970, in seconds) normalizes
  to the timestamp \<open>2592000000\<close>, which a second normalization takes for seconds again.
\<close>

theorem normalizePoints_idempotent_counterexample:
  "normalizePoints no_dateParse (JArr [JArr [JNum (Fin 2592000), JNum (Fin 35)]])
     = [\<lparr>timestamp = 2592000000, price_usd = 35\<rparr>]
   \<and> normalizePoints no_dateParse
        (series_value (normalizePoints no_dateParse (JArr [JArr [JNum (Fin 2592000), JNum (Fin 35)]])))
     = [\<lparr>timestamp = 2592000000000, price_usd = 35\<rparr>]
   \<and> normalizePoints no_dateParse
        (series_value (normalizePoints no_dateParse (JArr [JArr [JNum (Fin 2592000), JNum (Fin 35)]])))
     \<noteq> normalizePoints no_dateParse (JArr [JArr [JNum (Fin 2592000), JNum (Fin 35)]])"
proof -
  have a: "normalizePoints no_dateParse (JArr [JArr [JNum (Fin 2592000), JNum (Fin 35)]])
     = [\<lparr>timestamp = 2592000000, price_usd = 35\<rparr>]"
    by (simp add: normalizePoints_eval)
  have b: "normalizePoints no_dateParse (series_value [\<lparr>timestamp = 2592000000, price_usd = 35\<rparr>])
     = [\<lparr>timestamp = 2592000000000, price_usd = 35\<rparr>]"
    by (simp add: normalizePoints_eval)
  show ?thesis unfolding a b by simp
qed

text \<open>An instance: three records, two of them with the same timestamp.\<close>

lemma normalizePoints_example:
  "normalizePoints no_dateParse
     (JArr [JArr [JNum (Fin 1700000060), JNum (Fin 3)],
            JArr [JNum (Fin 1700000000), JNum (Fin 1)],
            JObj [(''t'', JNum (Fin 1700000000)), (''p'', JStr ''2.5'')]])
   = [\<lparr>timestamp = 1700000000000, price_usd = 5 / 2\<rparr>,
      \<lparr>timestamp = 1700000060000, price_usd = 3\<rparr>]"
  by (simp add: normalizePoints_eval unsigned_decimal_def exponent_part_def is_digit_def
        digit_of_def digits_value_def pow10_def isStrWhiteSpaceChar_def to_double_5_2)

section \<open>Properties of the downsampler\<close>

lemma Math_ceil_quotient:
  assumes "0 < d"
  shows "nat (Math_ceil (of_nat n / of_nat d)) = (n + d - 1) div d"
proof -
  let ?q = "(n + d - 1) div d"
  have up: "n \<le> ?q * d"
  proof -
    have "n + d - 1 < ?q * d + d"
      using assms dividend_less_times_div [of d "n + d - 1"] by (simp add: mult.commute)
    with assms show ?thesis by linarith
  qed
  have lo: "?q * d < n + d"
  proof -
    have "?q * d \<le> n + d - 1" by (rule div_times_less_eq_dividend)
    with assms show ?thesis by linarith
  qed
  have "\<lceil>(of_nat n :: rat) / of_nat d\<rceil> = int ?q"
  proof (rule ceiling_unique)
    have "(of_nat (?q * d) :: rat) < of_nat (n + d)" using lo by (simp only: of_nat_less_iff)
    then have "(of_nat ?q - 1) * (of_nat d :: rat) < of_nat n"
      by (simp add: algebra_simps)
    then show "of_int (int ?q) - 1 < (of_nat n :: rat) / of_nat d"
      using assms by (simp add: pos_less_divide_eq)
    have "(of_nat n :: rat) \<le> of_nat (?q * d)" using up by (simp only: of_nat_le_iff)
    then show "(of_nat n :: rat) / of_nat d \<le> of_int (int ?q)"
      using assms by (simp add: pos_divide_le_eq)
  qed
  then show ?thesis by (simp add: Math_ceil_def)
qed

lemma step_count:
  assumes "0 < step" and "i < (n::nat)"
  shows "(n - i + step - 1) div step = Suc ((n - (i + step) + step - 1) div step)"
proof -
  have "n - i + step - 1 = (n - i - 1) + step" using assms by simp
  then have "(n - i + step - 1) div step = ((n - i - 1) + step) div step"
    by (simp only:)
  also have "\<dots> = Suc ((n - i - 1) div step)"
    using assms by (simp only: div_add_self2)
  finally have L: "(n - i + step - 1) div step = Suc ((n - i - 1) div step)" .
  have R: "(n - (i + step) + step - 1) div step = (n - i - 1) div step"
  proof (cases "step \<le> n - i")
    case True
    then have "n - (i + step) + step - 1 = n - i - 1" by simp
    then show ?thesis by simp
  next
    case False
    then have "n - (i + step) = 0" "n - i - 1 < step" by simp_all
    then show ?thesis using assms by simp
  qed
  show ?thesis by (simp only: L R)
qed

lemma sample_loop_closed:
  assumes "0 < step"
  shows "sample_loop refs step i acc =
           Some (acc @ map (\<lambda>k. refs ! (i + k * step)) [0..<(length refs - i + step - 1) div step])"
proof (induction "length refs - i" arbitrary: i acc rule: less_induct)
  case less
  show ?case
  proof (cases "i < length refs")
    case False
    then have "(length refs - i + step - 1) div step = 0"
      using assms by simp
    with False show ?thesis
      by (subst sample_loop.simps) simp
  next
    case True
    with assms have "length refs - (i + step) < length refs - i" by simp
    from less [OF this]
    have IH: "sample_loop refs step (i + step) (acc @ [refs ! i]) =
        Some ((acc @ [refs ! i]) @ map (\<lambda>k. refs ! (i + step + k * step))
               [0..<(length refs - (i + step) + step - 1) div step])" .
    have "sample_loop refs step i acc = sample_loop refs step (i + step) (acc @ [refs ! i])"
      using True by (subst sample_loop.simps) simp
    also note IH
    finally show ?thesis
      unfolding step_count [OF assms True] map_upt_Suc by (simp add: add.assoc)
  qed
qed

lemma ceil_quotient_bounds:
  fixes d n :: nat
  assumes "0 < d" and "0 < n"
  shows "0 < (n + d - 1) div d" and "n \<le> (n + d - 1) div d * d"
proof -
  have "d \<le> n + d - 1" using assms by simp
  then show "0 < (n + d - 1) div d" using assms by (simp add: div_greater_zero_iff)
  have "n + d - 1 < (n + d - 1) div d * d + d"
    using assms dividend_less_times_div [of d "n + d - 1"] by (simp add: mult.commute)
  with assms show "n \<le> (n + d - 1) div d * d" by linarith
qed

lemma sample_count_le_limit:
  fixes n step m :: nat
  assumes "0 < step" and "n \<le> step * m"
  shows "(n + step - 1) div step \<le> m"
proof -
  have "n + step - 1 < Suc m * step" using assms by (simp add: mult.commute)
  then have "(n + step - 1) div step < Suc m" by (rule less_mult_imp_div_less)
  then show ?thesis by simp
qed

lemma reduce_min:
  fixes f :: "'a \<Rightarrow> rat"
  shows "(foldl (\<lambda>mn pt. if f pt < f mn then pt else mn) a xs = a
          \<or> foldl (\<lambda>mn pt. if f pt < f mn then pt else mn) a xs \<in> set xs)
         \<and> f (foldl (\<lambda>mn pt. if f pt < f mn then pt else mn) a xs) \<le> f a
         \<and> (\<forall>x\<in>set xs. f (foldl (\<lambda>mn pt. if f pt < f mn then pt else mn) a xs) \<le> f x)"
proof (induction xs arbitrary: a)
  case Nil
  then show ?case by simp
next
  case (Cons x xs)
  from Cons [of "if f x < f a then x else a"] show ?case
    by (auto split: if_splits)
qed

lemma reduce_max:
  fixes f :: "'a \<Rightarrow> rat"
  shows "(foldl (\<lambda>mx pt. if f pt > f mx then pt else mx) a xs = a
          \<or> foldl (\<lambda>mx pt. if f pt > f mx then pt else mx) a xs \<in> set xs)
         \<and> f a \<le> f (foldl (\<lambda>mx pt. if f pt > f mx then pt else mx) a xs)
         \<and> (\<forall>x\<in>set xs. f x \<le> f (foldl (\<lambda>mx pt. if f pt > f mx then pt else mx) a xs))"
proof (induction xs arbitrary: a)
  case Nil
  then show ?case by simp
next
  case (Cons x xs)
  from Cons [of "if f x > f a then x else a"] show ?case
    by (auto split: if_splits)
qed

lemma sample_eqI:
  fixes a b :: sample
  shows "timestamp a = timestamp b \<Longrightarrow> price_usd a = price_usd b \<Longrightarrow> a = b"
  by (cases a, cases b) simp

lemma ensure_props:
  "set sampled \<subseteq> set (ensure pt sampled)"
  "\<exists>item\<in>set (ensure pt sampled). snd item = snd pt"
  "length (ensure pt sampled) \<le> Suc (length sampled)"
  by (auto simp: ensure_def list_ex_iff intro: sample_eqI)

lemma downsample_long:
  fixes S :: "sample list" and m :: nat
  assumes "0 < m" and "m < length S"
  shows "\<exists>sampled :: sample_ref list. downsample S m = Some (map snd (sort_key (\<lambda>a. timestamp (snd a)) sampled))
      \<and> length sampled \<le> m + 3
      \<and> (\<exists>p\<in>set sampled. snd p = S ! 0)
      \<and> (\<exists>p\<in>set sampled. snd p = S ! (length S - 1))
      \<and> (\<exists>p\<in>set sampled. snd p \<in> set S \<and> (\<forall>q\<in>set S. price_usd (snd p) \<le> price_usd q))
      \<and> (\<exists>p\<in>set sampled. snd p \<in> set S \<and> (\<forall>q\<in>set S. price_usd q \<le> price_usd (snd p)))"
proof -
  define n where "n = length S"
  define refs where "refs = enumerate 0 S"
  define step where "step = (n + m - 1) div m"
  define count where "count = (n + step - 1) div step"
  define sampled0 where "sampled0 = map (\<lambda>k. refs ! (k * step)) [0..<count]"
  define lastPt where "lastPt = refs ! (length refs - 1)"
  define sampled1 where "sampled1 =
    (if fst (sampled0 ! (length sampled0 - 1)) \<noteq> fst lastPt then sampled0 @ [lastPt] else sampled0)"
  define minPt where "minPt =
    foldl (\<lambda>mn pt. if price_usd (snd pt) < price_usd (snd mn) then pt else mn) (refs ! 0) refs"
  define maxPt where "maxPt =
    foldl (\<lambda>mx pt. if price_usd (snd pt) > price_usd (snd mx) then pt else mx) (refs ! 0) refs"
  define sampled2 where "sampled2 = ensure maxPt (ensure minPt sampled1)"
  have n_pos: "0 < n" using assms unfolding n_def by linarith
  have len_refs: "length refs = n" by (simp add: refs_def n_def)
  have nth_refs: "refs ! i = (i, S ! i)" if "i < n" for i
    using that by (simp add: refs_def n_def nth_enumerate_eq)
  have set_refs: "snd ` set refs = set S"
    using map_snd_enumerate [of 0 S] by (metis refs_def set_map)
  have step_pos: "0 < step" and step_up: "n \<le> step * m"
    using ceil_quotient_bounds [OF assms(1) n_pos] by (simp_all add: step_def mult.commute)
  have count_pos: "0 < count" and count_up: "n \<le> count * step"
    using ceil_quotient_bounds [OF step_pos n_pos] by (simp_all add: count_def)
  have count_le: "count \<le> m"
    unfolding count_def using step_pos step_up by (rule sample_count_le_limit)
  have count_lo: "(count - 1) * step < n"
  proof -
    have "count * step \<le> n + step - 1"
      unfolding count_def by (rule div_times_less_eq_dividend)
    moreover have "count * step = (count - 1) * step + step"
      using count_pos by (cases count) simp_all
    ultimately show ?thesis using n_pos by linarith
  qed
  have loop: "sample_loop refs step 0 [] = Some sampled0"
    using sample_loop_closed [OF step_pos, of refs 0 "[]"]
    by (simp add: sampled0_def count_def len_refs)
  have step_eq: "nat (Math_ceil (of_nat (length S) / of_nat m)) = step"
    using Math_ceil_quotient [OF assms(1)] by (simp add: step_def n_def)
  have ds: "downsample S m = Some (map snd (sort_key (\<lambda>a. timestamp (snd a)) sampled2))"
    using assms unfolding downsample_def Let_def step_eq refs_def [symmetric] loop
    by (simp add: sampled2_def minPt_def maxPt_def sampled1_def lastPt_def)
  have len0: "length sampled0 = count" by (simp add: sampled0_def)
  have len1: "length sampled1 \<le> Suc count" by (simp add: sampled1_def len0)
  have len2: "length sampled2 \<le> m + 3"
    using ensure_props(3) [of maxPt "ensure minPt sampled1"] ensure_props(3) [of minPt sampled1]
      len1 count_le by (simp add: sampled2_def)
  have sub1: "set sampled0 \<subseteq> set sampled1" by (auto simp: sampled1_def)
  have sub2: "set sampled1 \<subseteq> set sampled2"
    using ensure_props(1) [of "ensure minPt sampled1" maxPt] ensure_props(1) [of sampled1 minPt]
    by (auto simp: sampled2_def)
  have "refs ! 0 \<in> set sampled0"
    using count_pos by (force simp: sampled0_def)
  with sub1 sub2 have first: "\<exists>p\<in>set sampled2. snd p = S ! 0"
    using nth_refs [OF n_pos] by force
  have lastPt_eq: "lastPt = (n - 1, S ! (n - 1))"
    using n_pos by (simp add: lastPt_def len_refs nth_refs)
  have "lastPt \<in> set sampled1"
  proof (cases "fst (sampled0 ! (length sampled0 - 1)) \<noteq> fst lastPt")
    case True
    then show ?thesis by (simp add: sampled1_def)
  next
    case False
    have "sampled0 ! (count - 1) = refs ! ((count - 1) * step)"
      using count_pos by (simp add: sampled0_def)
    also have "\<dots> = ((count - 1) * step, S ! ((count - 1) * step))"
      using count_lo by (rule nth_refs)
    finally have elt: "sampled0 ! (count - 1) = ((count - 1) * step, S ! ((count - 1) * step))" .
    with False have "(count - 1) * step = n - 1" by (simp add: len0 lastPt_eq)
    with elt have "sampled0 ! (count - 1) = lastPt" by (simp add: lastPt_eq)
    moreover have "sampled0 ! (count - 1) \<in> set sampled0"
      using count_pos by (simp add: len0)
    ultimately show ?thesis using sub1 by auto
  qed
  with sub2 have last: "\<exists>p\<in>set sampled2. snd p = S ! (length S - 1)"
    by (force simp: lastPt_eq n_def)
  have refs0: "refs ! 0 \<in> set refs" using n_pos by (simp add: len_refs)
  have "minPt \<in> set refs" and min_le: "\<forall>x\<in>set refs. price_usd (snd minPt) \<le> price_usd (snd x)"
    using reduce_min [of "\<lambda>pt. price_usd (snd pt)" "refs ! 0" refs] refs0
    by (auto simp: minPt_def)
  then have min_in: "snd minPt \<in> set S" and min_all: "\<forall>q\<in>set S. price_usd (snd minPt) \<le> price_usd q"
    unfolding set_refs [symmetric] by auto
  obtain pmin where pmin: "pmin \<in> set sampled2" "snd pmin = snd minPt"
    using ensure_props(2) [of minPt sampled1] ensure_props(1) [of "ensure minPt sampled1" maxPt]
    unfolding sampled2_def by blast
  have smin: "\<exists>p\<in>set sampled2. snd p \<in> set S \<and> (\<forall>q\<in>set S. price_usd (snd p) \<le> price_usd q)"
    using pmin min_in min_all by (intro bexI [of _ pmin]) simp_all
  have "maxPt \<in> set refs" and max_ge: "\<forall>x\<in>set refs. price_usd (snd x) \<le> price_usd (snd maxPt)"
    using reduce_max [of "\<lambda>pt. price_usd (snd pt)" "refs ! 0" refs] refs0
    by (auto simp: maxPt_def)
  then have max_in: "snd maxPt \<in> set S" and max_all: "\<forall>q\<in>set S. price_usd q \<le> price_usd (snd maxPt)"
    unfolding set_refs [symmetric] by auto
  obtain pmax where pmax: "pmax \<in> set sampled2" "snd pmax = snd maxPt"
    using ensure_props(2) [of maxPt "ensure minPt sampled1"] unfolding sampled2_def by blast
  have smax: "\<exists>p\<in>set sampled2. snd p \<in> set S \<and> (\<forall>q\<in>set S. price_usd q \<le> price_usd (snd p))"
    using pmax max_in max_all by (intro bexI [of _ pmax]) simp_all
  show ?thesis
    by (rule exI [of _ sampled2]) (intro conjI ds len2 first last smin smax)
qed

lemma downsample_short: "length S \<le> m \<Longrightarrow> downsample S m = Some S"
  by (simp add: downsample_def)

text \<open>
  The downsampler against the specification's words: the stride samples, the last sample,
  and the first sample of least price and the first of greatest price, each included only
  if no sample already there has its timestamp and price, sorted by timestamp.
\<close>

lemma strided_count:
  fixes step :: nat
  assumes "0 < step"
  shows "(n + step - 1) div step = (if step dvd n then n div step else Suc (n div step))"
proof (cases "step dvd n")
  case True
  then obtain k where "n = step * k" by (rule dvdE)
  then have k: "n = k * step" by (simp add: mult.commute)
  have "n + step - 1 = (step - 1) + k * step" using assms k by simp
  then have "(n + step - 1) div step = ((step - 1) + k * step) div step" by (simp only:)
  also have "\<dots> = k + (step - 1) div step" using assms by (simp only: div_mult_self1) 
  also have "\<dots> = k" using assms by simp
  finally show ?thesis using True k assms by simp
next
  case False
  then have pos: "0 < n mod step" by (simp add: dvd_eq_mod_eq_0)
  have "n = n mod step + (n div step) * step" by simp
  then have "n + step - 1 = (n mod step - 1 + step) + (n div step) * step"
    using pos by linarith
  then have "(n + step - 1) div step = ((n mod step - 1 + step) + (n div step) * step) div step"
    by (simp only:)
  also have "\<dots> = n div step + (n mod step - 1 + step) div step"
    using assms by (simp only: div_mult_self1)
  also have "(n mod step - 1 + step) div step = Suc ((n mod step - 1) div step)"
    using assms by (simp only: div_add_self2)
  also have "(n mod step - 1) div step = 0"
    using assms pos by (simp add: less_imp_diff_less)
  finally show ?thesis using False by simp
qed

lemma strided_indices:
  fixes step :: nat
  assumes "0 < step"
  shows "filter (\<lambda>i. step dvd i) [0..<n] = map (\<lambda>j. j * step) [0..<(n + step - 1) div step]"
proof (induction n)
  case 0
  then show ?case using assms by simp
next
  case (Suc n)
  have cnt: "(Suc n + step - 1) div step = Suc (n div step)"
    using assms by simp
  show ?case
  proof (cases "step dvd n")
    case True
    then have "(n + step - 1) div step = n div step"
      using strided_count [OF assms, of n] by simp
    with Suc True show ?thesis
      unfolding cnt by simp
  next
    case False
    then have "(n + step - 1) div step = Suc (n div step)"
      using strided_count [OF assms, of n] by simp
    with Suc False show ?thesis
      unfolding cnt by simp
  qed
qed

lemma foldl_snd:
  "snd (foldl (\<lambda>a b. if f (snd b) < f (snd a) then b else a) x ps)
     = foldl (\<lambda>a b. if f b < f a then b else a) (snd x) (map snd ps)"
  by (induction ps arbitrary: x) simp_all

lemma reduce_first:
  fixes f :: "'a \<Rightarrow> rat" and g
  defines "g \<equiv> \<lambda>mn pt. if f pt < f mn then pt else mn"
  shows "(foldl g a xs = a \<and> (\<forall>x\<in>set xs. f a \<le> f x))
     \<or> (\<exists>pre post. xs = pre @ foldl g a xs # post
           \<and> f (foldl g a xs) < f a
           \<and> (\<forall>x\<in>set pre. f (foldl g a xs) < f x)
           \<and> (\<forall>x\<in>set post. f (foldl g a xs) \<le> f x))"
proof (induction xs arbitrary: a)
  case Nil
  then show ?case by simp
next
  case (Cons x xs)
  let ?a' = "g a x"
  let ?r = "foldl g ?a' xs"
  have r: "foldl g a (x # xs) = ?r" by simp
  from Cons [of ?a'] consider
    (keep) "?r = ?a'" "\<forall>y\<in>set xs. f ?a' \<le> f y"
  | (later) pre post where "xs = pre @ ?r # post" "f ?r < f ?a'"
      "\<forall>y\<in>set pre. f ?r < f y" "\<forall>y\<in>set post. f ?r \<le> f y"
    by blast
  then show ?case
  proof cases
    case keep
    show ?thesis
    proof (cases "f x < f a")
      case True
      then have a': "?a' = x" by (simp add: g_def)
      have "x # xs = [] @ ?r # xs" using keep(1) a' by simp
      moreover have "f ?r < f a" using keep(1) a' True by simp
      moreover have "\<forall>y\<in>set xs. f ?r \<le> f y" using keep by simp
      ultimately show ?thesis unfolding r by (intro disjI2 exI [of _ "[]"] exI [of _ xs]) simp
    next
      case False
      then have a': "?a' = a" by (simp add: g_def)
      with keep False show ?thesis unfolding r by (intro disjI1) auto
    qed
  next
    case later
    have lt: "f ?r < f a" "f ?r < f x"
    proof -
      show "f ?r < f a" using later(2) by (auto simp: g_def split: if_splits)
      show "f ?r < f x" using later(2) by (auto simp: g_def split: if_splits)
    qed
    have "x # xs = (x # pre) @ ?r # post" using later(1) by simp
    moreover have "\<forall>y\<in>set (x # pre). f ?r < f y" using later(3) lt by simp
    ultimately show ?thesis
      unfolding r using lt(1) later(4)
      by (intro disjI2 exI [of _ "x # pre"] exI [of _ post]) simp
  qed
qed

lemma find_append_None: "List.find P xs = None \<Longrightarrow> List.find P (xs @ ys) = List.find P ys"
  by (induction xs) (auto split: if_splits)

lemma find_first_least:
  fixes f :: "'a \<Rightarrow> rat"
  assumes "S \<noteq> []"
  shows "List.find (\<lambda>p. \<forall>q\<in>set S. f p \<le> f q) S
           = Some (foldl (\<lambda>mn pt. if f pt < f mn then pt else mn) (S ! 0) S)"
proof -
  from assms obtain a t where S: "S = a # t" by (cases S) auto
  let ?g = "\<lambda>mn pt. if f pt < f mn then pt else mn"
  let ?P = "\<lambda>p. \<forall>q\<in>set S. f p \<le> f q"
  let ?r = "foldl ?g a t"
  have r: "foldl ?g (S ! 0) S = ?r" by (simp add: S)
  from reduce_first [of f a t] consider
    (keep) "?r = a" "\<forall>x\<in>set t. f a \<le> f x"
  | (later) pre post where "t = pre @ ?r # post" "f ?r < f a"
      "\<forall>x\<in>set pre. f ?r < f x" "\<forall>x\<in>set post. f ?r \<le> f x"
    by blast
  then have "List.find ?P S = Some ?r"
  proof cases
    case keep
    then have "?P a" by (simp add: S)
    then have "List.find ?P (a # t) = Some a" by simp
    with keep(1) show ?thesis by (simp only: S)
  next
    case later
    have "?r \<in> set (pre @ ?r # post)" by simp
    then have "?r \<in> set t" by (simp only: later(1) [symmetric])
    then have mem: "?r \<in> set S" by (simp add: S)
    have "?P ?r"
    proof
      fix q assume "q \<in> set S"
      then have "q = a \<or> q \<in> set t" by (auto simp: S)
      moreover have "set t = set pre \<union> {?r} \<union> set post"
        by (subst later(1)) auto
      ultimately have "q = a \<or> q \<in> set pre \<or> q = ?r \<or> q \<in> set post" by blast
      with later show "f ?r \<le> f q" by force
    qed
    moreover have "\<not> ?P y" if "y \<in> set (a # pre)" for y
    proof -
      from that later(2,3) have "f ?r < f y" by auto
      with mem show ?thesis by force
    qed
    then have "List.find ?P (a # pre) = None" by (simp only: find_None_iff) blast
    ultimately have "List.find ?P ((a # pre) @ ?r # post) = Some ?r"
      by (simp only: find_append_None) simp
    then have "List.find ?P (a # (pre @ ?r # post)) = Some ?r" by simp
    then have "List.find ?P (a # t) = Some ?r" by (simp only: later(1) [symmetric])
    then show ?thesis by (simp only: S)
  qed
  then show ?thesis by (simp only: r)
qed

lemma find_first_greatest:
  fixes f :: "'a \<Rightarrow> rat"
  assumes "S \<noteq> []"
  shows "List.find (\<lambda>p. \<forall>q\<in>set S. f q \<le> f p) S
           = Some (foldl (\<lambda>mx pt. if f pt > f mx then pt else mx) (S ! 0) S)"
  using find_first_least [OF assms, of "\<lambda>x. - f x"] by simp

lemma ensure_spec_include: "map snd (ensure pt xs) = spec_include (snd pt) (map snd xs)"
  by (auto simp: ensure_def spec_include_def list_ex_iff)

lemma sort_key_map: "sort_key f (map g xs) = map g (sort_key (\<lambda>x. f (g x)) xs)"
proof -
  have ins: "insort_key f (g x) (map g ys) = map g (insort_key (\<lambda>x. f (g x)) x ys)" for x ys
    by (induction ys) simp_all
  show ?thesis by (induction xs) (simp_all add: ins)
qed


lemma downsample_refines_spec:
  fixes S :: "sample list" and m :: nat
  assumes "0 < m" and "m < length S"
  shows "\<exists>lo hi. List.find (\<lambda>p. \<forall>q\<in>set S. price_usd p \<le> price_usd q) S = Some lo
      \<and> List.find (\<lambda>p. \<forall>q\<in>set S. price_usd q \<le> price_usd p) S = Some hi
      \<and> downsample S m
          = Some (sort_key timestamp (spec_include hi (spec_include lo (spec_taken S m))))"
proof -
  define n where "n = length S"
  define refs where "refs = enumerate 0 S"
  define step where "step = (n + m - 1) div m"
  define count where "count = (n + step - 1) div step"
  define sampled0 where "sampled0 = map (\<lambda>k. refs ! (k * step)) [0..<count]"
  define lastPt where "lastPt = refs ! (length refs - 1)"
  define sampled1 where "sampled1 =
    (if fst (sampled0 ! (length sampled0 - 1)) \<noteq> fst lastPt then sampled0 @ [lastPt] else sampled0)"
  define minPt where "minPt =
    foldl (\<lambda>mn pt. if price_usd (snd pt) < price_usd (snd mn) then pt else mn) (refs ! 0) refs"
  define maxPt where "maxPt =
    foldl (\<lambda>mx pt. if price_usd (snd pt) > price_usd (snd mx) then pt else mx) (refs ! 0) refs"
  define sampled2 where "sampled2 = ensure maxPt (ensure minPt sampled1)"
  have n_pos: "0 < n" using assms unfolding n_def by linarith
  then have S_ne: "S \<noteq> []" by (auto simp: n_def)
  have len_refs: "length refs = n" by (simp add: refs_def n_def)
  have nth_refs: "refs ! i = (i, S ! i)" if "i < n" for i
    using that by (simp add: refs_def n_def nth_enumerate_eq)
  have snd_refs: "map snd refs = S" by (simp add: refs_def)
  have step_pos: "0 < step"
    using ceil_quotient_bounds [OF assms(1) n_pos] by (simp_all add: step_def)
  have count_pos: "0 < count"
    using ceil_quotient_bounds [OF step_pos n_pos] by (simp_all add: count_def)
  have count_eq: "count = Suc ((n - 1) div step)"
  proof -
    have "n + step - 1 = (n - 1) + step" using n_pos by simp
    then have "count = ((n - 1) + step) div step" by (simp only: count_def)
    also have "\<dots> = Suc ((n - 1) div step)" using step_pos by (simp only: div_add_self2)
    finally show ?thesis .
  qed
  have in_range: "k * step < n" if "k < count" for k
  proof -
    from that have "k \<le> (n - 1) div step" by (simp add: count_eq)
    then have "k * step \<le> (n - 1) div step * step" by (rule mult_le_mono1)
    also have "\<dots> \<le> n - 1" by (rule div_times_less_eq_dividend)
    finally show ?thesis using n_pos by linarith
  qed
  have loop: "sample_loop refs step 0 [] = Some sampled0"
    using sample_loop_closed [OF step_pos, of refs 0 "[]"]
    by (simp add: sampled0_def count_def len_refs)
  have step_eq: "nat (Math_ceil (of_nat (length S) / of_nat m)) = step"
    using Math_ceil_quotient [OF assms(1)] by (simp add: step_def n_def)
  have ds: "downsample S m = Some (map snd (sort_key (\<lambda>a. timestamp (snd a)) sampled2))"
    using assms unfolding downsample_def Let_def step_eq refs_def [symmetric] loop
    by (simp add: sampled2_def minPt_def maxPt_def sampled1_def lastPt_def)
  have stride: "spec_stride (length S) m = step" by (simp add: spec_stride_def step_def n_def)
  have picked: "map snd sampled0 = map (\<lambda>i. S ! i) (filter (\<lambda>i. step dvd i) [0..<n])"
  proof -
    have "map snd sampled0 = map (\<lambda>k. S ! (k * step)) [0..<count]"
      unfolding sampled0_def by (simp add: nth_refs in_range)
    also have "\<dots> = map (\<lambda>i. S ! i) (map (\<lambda>j. j * step) [0..<count])" by (simp add: comp_def)
    also have "map (\<lambda>j. j * step) [0..<count] = filter (\<lambda>i. step dvd i) [0..<n]"
      unfolding count_def by (rule strided_indices [OF step_pos, symmetric])
    finally show ?thesis .
  qed
  have lastPt_eq: "lastPt = (n - 1, S ! (n - 1))"
    using n_pos by (simp add: lastPt_def len_refs nth_refs)
  have last_idx: "fst (sampled0 ! (length sampled0 - 1)) = (n - 1) div step * step"
  proof -
    have "sampled0 ! (count - 1) = refs ! ((count - 1) * step)"
      using count_pos by (simp add: sampled0_def)
    also have "\<dots> = ((count - 1) * step, S ! ((count - 1) * step))"
      using count_pos by (intro nth_refs in_range) simp
    finally show ?thesis by (simp add: sampled0_def count_eq)
  qed
  have on_stride: "(n - 1) div step * step = n - 1 \<longleftrightarrow> step dvd (n - 1)"
    by (metis dvd_div_mult_self dvd_triv_right)
  have taken: "map snd sampled1 = spec_taken S m"
    unfolding spec_taken_def Let_def stride sampled1_def last_idx
    using S_ne on_stride picked
    by (simp add: lastPt_eq n_def last_conv_nth)
  have lo: "List.find (\<lambda>p. \<forall>q\<in>set S. price_usd p \<le> price_usd q) S = Some (snd minPt)"
  proof -
    have "snd minPt = foldl (\<lambda>mn pt. if price_usd pt < price_usd mn then pt else mn) (S ! 0) S"
      unfolding minPt_def foldl_snd snd_refs using n_pos by (simp add: nth_refs)
    then show ?thesis using find_first_least [OF S_ne, of price_usd] by simp
  qed
  have hi: "List.find (\<lambda>p. \<forall>q\<in>set S. price_usd q \<le> price_usd p) S = Some (snd maxPt)"
  proof -
    have "snd maxPt = foldl (\<lambda>mx pt. if price_usd pt > price_usd mx then pt else mx) (S ! 0) S"
      unfolding maxPt_def using foldl_snd [of "\<lambda>p. - price_usd p" "refs ! 0" refs] n_pos
      by (simp add: nth_refs snd_refs)
    then show ?thesis using find_first_greatest [OF S_ne, of price_usd] by simp
  qed
  have "map snd (sort_key (\<lambda>a. timestamp (snd a)) sampled2)
      = sort_key timestamp (map snd sampled2)"
    by (simp only: sort_key_map)
  also have "map snd sampled2 = spec_include (snd maxPt) (spec_include (snd minPt) (spec_taken S m))"
    by (simp only: sampled2_def ensure_spec_include taken)
  finally have "downsample S m
      = Some (sort_key timestamp (spec_include (snd maxPt) (spec_include (snd minPt) (spec_taken S m))))"
    by (simp only: ds)
  with lo hi show ?thesis by blast
qed

text \<open>
  C2: for every non-empty series and every positive limit, \<open>downsample\<close> returns, and its
  result contains the first sample, the last sample, a sample of the series with the least
  price and one with the greatest price; when the series is longer than the limit the
  result has at most \<open>limit + 3\<close> samples, and it is, sorted by timestamp, the stride samples
  with the last sample, to which the first sample of least price and then the first
  sample of greatest price are added, each only if no sample already included has the
  identical timestamp and price. The order of the series plays no part.
\<close>

theorem downsample_keeps_shape:
  fixes S :: "sample list" and n_limit :: nat
  assumes "S \<noteq> []" and "0 < n_limit"
  shows "\<exists>out. downsample S n_limit = Some out
      \<and> hd S \<in> set out \<and> last S \<in> set out
      \<and> (\<exists>p\<in>set out. p \<in> set S \<and> (\<forall>q\<in>set S. price_usd p \<le> price_usd q))
      \<and> (\<exists>p\<in>set out. p \<in> set S \<and> (\<forall>q\<in>set S. price_usd q \<le> price_usd p))
      \<and> (n_limit < length S \<longrightarrow> length out \<le> n_limit + 3)
      \<and> (n_limit < length S \<longrightarrow>
           (\<exists>lo hi. List.find (\<lambda>p. \<forall>q\<in>set S. price_usd p \<le> price_usd q) S = Some lo
              \<and> List.find (\<lambda>p. \<forall>q\<in>set S. price_usd q \<le> price_usd p) S = Some hi
              \<and> out = sort_key timestamp
                         (spec_include hi (spec_include lo (spec_taken S n_limit)))))"
proof (cases "n_limit < length S")
  case False
  then have out: "downsample S n_limit = Some S" by (simp add: downsample_short)
  have hd_in: "hd S \<in> set S" using assms(1) by simp
  define lo where "lo = foldl (\<lambda>mn pt. if price_usd pt < price_usd mn then pt else mn) (hd S) S"
  define hi where "hi = foldl (\<lambda>mx pt. if price_usd pt > price_usd mx then pt else mx) (hd S) S"
  have lo: "lo \<in> set S" "\<forall>q\<in>set S. price_usd lo \<le> price_usd q"
    using reduce_min [of price_usd "hd S" S] hd_in unfolding lo_def by auto
  have hi: "hi \<in> set S" "\<forall>q\<in>set S. price_usd q \<le> price_usd hi"
    using reduce_max [of price_usd "hd S" S] hd_in unfolding hi_def by auto
  have smin: "\<exists>p\<in>set S. p \<in> set S \<and> (\<forall>q\<in>set S. price_usd p \<le> price_usd q)"
    using lo by (intro bexI [of _ lo]) simp_all
  have smax: "\<exists>p\<in>set S. p \<in> set S \<and> (\<forall>q\<in>set S. price_usd q \<le> price_usd p)"
    using hi by (intro bexI [of _ hi]) simp_all
  show ?thesis
    using out hd_in assms(1) smin smax False by simp
next
  case True
  from downsample_long [OF assms(2) True] obtain sampled :: "sample_ref list"
    where out: "downsample S n_limit = Some (map snd (sort_key (\<lambda>a. timestamp (snd a)) sampled))"
      and len: "length sampled \<le> n_limit + 3"
      and first: "\<exists>p\<in>set sampled. snd p = S ! 0"
      and lastp: "\<exists>p\<in>set sampled. snd p = S ! (length S - 1)"
      and smin: "\<exists>p\<in>set sampled. snd p \<in> set S \<and> (\<forall>q\<in>set S. price_usd (snd p) \<le> price_usd q)"
      and smax: "\<exists>p\<in>set sampled. snd p \<in> set S \<and> (\<forall>q\<in>set S. price_usd q \<le> price_usd (snd p))"
    by blast
  let ?out = "map snd (sort_key (\<lambda>a. timestamp (snd a)) sampled)"
  have set_out: "set ?out = snd ` set sampled" by simp
  have len_out: "length ?out = length sampled" by simp
  have 1: "hd S \<in> set ?out"
    unfolding set_out using first assms(1) by (force simp: hd_conv_nth image_iff)
  have 2: "last S \<in> set ?out"
    unfolding set_out using lastp assms(1) by (force simp: last_conv_nth image_iff)
  have 3: "\<exists>p\<in>set ?out. p \<in> set S \<and> (\<forall>q\<in>set S. price_usd p \<le> price_usd q)"
    unfolding set_out using smin by blast
  have 4: "\<exists>p\<in>set ?out. p \<in> set S \<and> (\<forall>q\<in>set S. price_usd q \<le> price_usd p)"
    unfolding set_out using smax by blast
  have 5: "n_limit < length S \<longrightarrow> length ?out \<le> n_limit + 3"
    unfolding len_out using len by simp
  from downsample_refines_spec [OF assms(2) True] obtain lo hi
    where lo: "List.find (\<lambda>p. \<forall>q\<in>set S. price_usd p \<le> price_usd q) S = Some lo"
      and hi: "List.find (\<lambda>p. \<forall>q\<in>set S. price_usd q \<le> price_usd p) S = Some hi"
      and spec: "downsample S n_limit
          = Some (sort_key timestamp (spec_include hi (spec_include lo (spec_taken S n_limit))))"
    by blast
  from out spec have "?out = sort_key timestamp (spec_include hi (spec_include lo (spec_taken S n_limit)))"
    by simp
  with lo hi have 6: "n_limit < length S \<longrightarrow>
           (\<exists>lo hi. List.find (\<lambda>p. \<forall>q\<in>set S. price_usd p \<le> price_usd q) S = Some lo
              \<and> List.find (\<lambda>p. \<forall>q\<in>set S. price_usd q \<le> price_usd p) S = Some hi
              \<and> ?out = sort_key timestamp
                         (spec_include hi (spec_include lo (spec_taken S n_limit))))"
    by blast
  show ?thesis
    by (rule exI [of _ ?out]) (intro conjI out 1 2 3 4 5 6)
qed

text \<open>
  C3 (amended): for every series and every limit of at least 1, \<open>downsample\<close> returns; a
  series longer than the limit gives at most \<open>limit + 3\<close> samples, and a series no longer
  than the limit is returned unchanged.
\<close>

theorem downsample_length:
  fixes S :: "sample list" and n_limit :: nat
  assumes "1 \<le> n_limit"
  shows "\<exists>out. downsample S n_limit = Some out
           \<and> (if n_limit < length S then length out \<le> n_limit + 3 else out = S)"
proof (cases "n_limit < length S")
  case False
  then show ?thesis by (simp add: downsample_short)
next
  case True
  from assms have "0 < n_limit" by simp
  from downsample_long [OF this True] obtain sampled :: "sample_ref list"
    where "downsample S n_limit = Some (map snd (sort_key (\<lambda>a. timestamp (snd a)) sampled))"
      and "length sampled \<le> n_limit + 3"
    by blast
  with True show ?thesis by simp
qed

lemma Math_ceil_numeral:
  "nat (Math_ceil (numeral a / numeral b)) = (numeral a + numeral b - 1) div numeral b"
  using Math_ceil_quotient [of "numeral b" "numeral a"] by simp

lemmas downsample_eval =
  downsample_def Let_def Math_ceil_numeral sample_loop_closed ensure_def upt_rec

text \<open>The bound \<open>limit + 3\<close> is attained: eight samples and a limit of 3 give six.\<close>

lemma downsample_series8:
  "downsample series8 3 =
     Some [\<lparr>timestamp = 1, price_usd = 5\<rparr>, \<lparr>timestamp = 2, price_usd = 1\<rparr>,
           \<lparr>timestamp = 3, price_usd = 9\<rparr>, \<lparr>timestamp = 4, price_usd = 5\<rparr>,
           \<lparr>timestamp = 7, price_usd = 5\<rparr>, \<lparr>timestamp = 8, price_usd = 5\<rparr>]"
  by (simp add: downsample_eval series8_def)

theorem downsample_keeps_shape_witness:
  "series8 \<noteq> [] \<and> (0::nat) < 3
   \<and> (\<exists>out. downsample series8 3 = Some out
         \<and> hd series8 \<in> set out \<and> last series8 \<in> set out
         \<and> (\<exists>p\<in>set out. p \<in> set series8 \<and> (\<forall>q\<in>set series8. price_usd p \<le> price_usd q))
         \<and> (\<exists>p\<in>set out. p \<in> set series8 \<and> (\<forall>q\<in>set series8. price_usd q \<le> price_usd p))
         \<and> (3 < length series8 \<longrightarrow> length out \<le> 3 + 3)
         \<and> (3 < length series8 \<longrightarrow>
              (\<exists>lo hi. List.find (\<lambda>p. \<forall>q\<in>set series8. price_usd p \<le> price_usd q) series8 = Some lo
                 \<and> List.find (\<lambda>p. \<forall>q\<in>set series8. price_usd q \<le> price_usd p) series8 = Some hi
                 \<and> out = sort_key timestamp
                            (spec_include hi (spec_include lo (spec_taken series8 3))))))"
proof -
  have h1: "series8 \<noteq> []" by (simp add: series8_def)
  have h2: "(0::nat) < 3" by simp
  show ?thesis by (intro conjI h1 h2 downsample_keeps_shape [OF h1 h2])
qed

text \<open>
  Extremes that the stride has taken are not added again: of three samples with the least
  price first and the greatest last, a limit of 2 keeps the first and the last, once each.
\<close>

lemma downsample_series3:
  "downsample series3 2 = Some [\<lparr>timestamp = 1, price_usd = 1\<rparr>, \<lparr>timestamp = 3, price_usd = 9\<rparr>]"
  by (simp add: downsample_eval series3_def)

theorem downsample_length_witness:
  "(1::nat) \<le> 3
   \<and> (\<exists>out. downsample series8 3 = Some out
         \<and> (if 3 < length series8 then length out \<le> 3 + 3 else out = series8))"
proof -
  have h: "(1::nat) \<le> 3" by simp
  show ?thesis by (intro conjI h downsample_length [OF h])
qed

text \<open>
  C3, as stated, fails: five samples and a limit of 4 give a stride of 2, so the samples at
  indices 0, 2 and 4 are taken, and the extremes at indices 1 and 3 are added: five
  samples, more than \<open>max(4, 3)\<close>.
\<close>

theorem downsample_length_counterexample:
  "(1::nat) \<le> 4 \<and> 4 < length series5
   \<and> downsample series5 4 = Some series5
   \<and> \<not> length series5 \<le> max 4 3"
  by (simp add: downsample_eval series5_def)

section \<open>Properties of the time window, the request handler and the loader\<close>

text \<open>
  C6: when \<open>windowMs\<close> is not finite (unbounded), \<open>applyTimeWindow\<close> returns the series
  unchanged. Otherwise it returns, in their order, exactly the points whose timestamp is at
  least the anchor minus \<open>windowMs\<close> (a difference and a comparison of numbers): the anchor
  is the timestamp of the last point when the series is not empty and that timestamp is
  finite, and the wall-clock time \<open>now\<close> when the series is empty or the timestamp of its
  last point is not finite.
\<close>

theorem applyTimeWindow_anchor:
  "(\<not> isFinite w \<longrightarrow> applyTimeWindow now ts S w = S)
   \<and> (S \<noteq> [] \<and> ts (last S) = Fin t \<longrightarrow>
        applyTimeWindow now ts S (Fin d)
          = filter (\<lambda>p. ge_number (ts p) (minus_double t d)) S)
   \<and> (S = [] \<or> \<not> isFinite (ts (last S)) \<longrightarrow>
        applyTimeWindow now ts S (Fin d)
          = filter (\<lambda>p. ge_number (ts p) (minus_double now d)) S)"
proof (intro conjI impI)
  assume "\<not> isFinite w"
  then show "applyTimeWindow now ts S w = S"
    by (cases w) (simp_all add: applyTimeWindow_def)
next
  assume "S \<noteq> [] \<and> ts (last S) = Fin t"
  then show "applyTimeWindow now ts S (Fin d)
               = filter (\<lambda>p. ge_number (ts p) (minus_double t d)) S"
    by (clarsimp simp: applyTimeWindow_def last_conv_nth)
next
  assume "S = [] \<or> \<not> isFinite (ts (last S))"
  then show "applyTimeWindow now ts S (Fin d)
               = filter (\<lambda>p. ge_number (ts p) (minus_double now d)) S"
    by (cases "ts (last S)") (auto simp: applyTimeWindow_def last_conv_nth)
qed

text \<open>
  The witness: an unbounded window; a window of one hour on two points more than an hour
  apart, anchored at the last one; and the same window on a series whose last point has the
  timestamp NaN, anchored at two wall-clock times, which give different results.
\<close>

theorem applyTimeWindow_anchor_witness:
  "\<not> isFinite PosInf
   \<and> applyTimeWindow 0 id sparse_points PosInf = sparse_points
   \<and> sparse_points \<noteq> [] \<and> id (last sparse_points) = Fin 1700100000000
   \<and> applyTimeWindow 0 id sparse_points (Fin 3600000) = [Fin 1700100000000]
   \<and> \<not> isFinite (id (last broken_points))
   \<and> applyTimeWindow 1700100000000 id broken_points (Fin 3600000) = [Fin 1700100000000]
   \<and> applyTimeWindow 1700003600000 id broken_points (Fin 3600000)
       = [Fin 1700000000000, Fin 1700100000000]"
proof -
  have h1: "\<not> isFinite PosInf" by simp
  have h2: "sparse_points \<noteq> [] \<and> id (last sparse_points) = Fin 1700100000000"
    by (simp add: sparse_points_def)
  have h3: "broken_points = [] \<or> \<not> isFinite (id (last broken_points))"
    by (simp add: broken_points_def)
  note a = applyTimeWindow_anchor [of PosInf 0 id sparse_points, THEN conjunct1, rule_format, OF h1]
  note b = applyTimeWindow_anchor [of _ 0 id sparse_points 1700100000000 3600000,
      THEN conjunct2, THEN conjunct1, rule_format, OF h2]
  note c = applyTimeWindow_anchor [of _ 1700100000000 id broken_points _ 3600000,
      THEN conjunct2, THEN conjunct2, rule_format, OF h3]
  note d = applyTimeWindow_anchor [of _ 1700003600000 id broken_points _ 3600000,
      THEN conjunct2, THEN conjunct2, rule_format, OF h3]
  have b': "applyTimeWindow 0 id sparse_points (Fin 3600000) = [Fin 1700100000000]"
    unfolding b by (simp add: sparse_points_def minus_double_numeral)
  have c': "applyTimeWindow 1700100000000 id broken_points (Fin 3600000) = [Fin 1700100000000]"
    unfolding c by (simp add: broken_points_def minus_double_numeral)
  have d': "applyTimeWindow 1700003600000 id broken_points (Fin 3600000)
       = [Fin 1700000000000, Fin 1700100000000]"
    unfolding d by (simp add: broken_points_def minus_double_numeral)
  from h1 a h2 b' h3 c' d' show ?thesis by (simp add: broken_points_def)
qed

lemma applyTimeWindow_spec_window:
  "applyTimeWindow now sample_timestamp S w = spec_dataset_window S w"
  by (cases w)
     (simp_all add: applyTimeWindow_def spec_dataset_window_def sample_timestamp_def
        last_conv_nth)

lemma slice_last_spec_tail:
  "0 < k \<Longrightarrow> slice_last (min k (length xs)) xs = spec_tail k xs"
  by (cases "k \<le> length xs") (auto simp: slice_last_def spec_tail_def min_def)

lemma own_limit_positive: "TIMEFRAME_CONFIG key = Own cfg \<Longrightarrow> 0 < limit cfg"
  by (auto simp: TIMEFRAME_CONFIG_def split: if_splits)

lemma downsample_returns:
  fixes S :: "sample list"
  assumes "0 < m"
  shows "\<exists>out. downsample S m = Some out"
proof (cases "m < length S")
  case True
  from downsample_long [OF assms True] show ?thesis by blast
next
  case False
  then show ?thesis by (simp add: downsample_short)
qed

text \<open>
  C7: for every request whose timeframe key has an entry of its own in the table, and
  every loaded cache, the handler answers with the result of the pipeline the
  specification describes (normalize, window from the last sample, tail of the whole
  series when the window leaves fewer than 2 samples, downsample to the limit), and this
  pipeline returns.
\<close>

theorem chart_data_cache_backed:
  assumes "TIMEFRAME_CONFIG (timeframe_of query) = Own cfg"
  shows "chart_data dateParse now (Inr cache) query
           = map_option Json200 (spec_cache_backed dateParse cache cfg)
         \<and> (\<exists>out. spec_cache_backed dateParse cache cfg = Some out)"
proof -
  have pos: "0 < limit cfg" using assms by (rule own_limit_positive)
  have eq: "windowed_or_tail now (normalizePoints dateParse cache) (windowMs cfg) (limit cfg)
      = (let series = normalizePoints dateParse cache;
             windowed = spec_dataset_window series (windowMs cfg)
         in if length windowed < 2 then spec_tail (limit cfg) series else windowed)"
    using pos by (simp add: windowed_or_tail_def applyTimeWindow_spec_window slice_last_spec_tail Let_def)
  have 1: "chart_data dateParse now (Inr cache) query
           = map_option Json200 (spec_cache_backed dateParse cache cfg)"
    using assms pos unfolding chart_data_def spec_cache_backed_def
    by (simp add: eq Let_def)
  have 2: "\<exists>out. spec_cache_backed dateParse cache cfg = Some out"
    unfolding spec_cache_backed_def Let_def using pos by (rule downsample_returns)
  from 1 2 show ?thesis by simp
qed

lemma timeframe_of_1h: "timeframe_of (Some '' 1H '') = ''1h''"
  by (simp add: timeframe_of_def trim_def toLowerCase_def isStrWhiteSpaceChar_def char_of_def bit_Suc_0_iff)

lemma timeframe_1h: "TIMEFRAME_CONFIG (timeframe_of (Some '' 1H '')) = Own \<lparr>windowMs = Fin 3600000, limit = 120\<rparr>"
  by (simp add: timeframe_of_1h TIMEFRAME_CONFIG_def)

theorem chart_data_cache_backed_witness:
  "TIMEFRAME_CONFIG (timeframe_of (Some '' 1H '')) = Own \<lparr>windowMs = Fin 3600000, limit = 120\<rparr>
   \<and> chart_data no_dateParse 0
        (Inr (JArr [JArr [JNum (Fin 1700000000), JNum (Fin 5)],
                    JArr [JNum (Fin 1700100000), JNum (Fin 7)]])) (Some '' 1H '')
     = map_option Json200 (spec_cache_backed no_dateParse
         (JArr [JArr [JNum (Fin 1700000000), JNum (Fin 5)],
                JArr [JNum (Fin 1700100000), JNum (Fin 7)]])
         \<lparr>windowMs = Fin 3600000, limit = 120\<rparr>)
   \<and> (\<exists>out. spec_cache_backed no_dateParse
         (JArr [JArr [JNum (Fin 1700000000), JNum (Fin 5)],
                JArr [JNum (Fin 1700100000), JNum (Fin 7)]])
         \<lparr>windowMs = Fin 3600000, limit = 120\<rparr> = Some out)"
  by (intro conjI timeframe_1h chart_data_cache_backed [OF timeframe_1h, THEN conjunct1]
        chart_data_cache_backed [OF timeframe_1h, THEN conjunct2])

text \<open>
  An instance of the recovery: two samples more than an hour apart, requested with
  \<open>1h\<close>. The window keeps only the last one, and the answer is the tail, both samples.
\<close>

lemma sparse_window_recovery:
  "applyTimeWindow 0 sample_timestamp
     [\<lparr>timestamp = 1700000000000, price_usd = 5\<rparr>, \<lparr>timestamp = 1700100000000, price_usd = 7\<rparr>]
     (Fin 3600000)
     = [\<lparr>timestamp = 1700100000000, price_usd = 7\<rparr>]
   \<and> chart_data no_dateParse 0
        (Inr (JArr [JArr [JNum (Fin 1700000000), JNum (Fin 5)],
                    JArr [JNum (Fin 1700100000), JNum (Fin 7)]])) (Some '' 1H '')
     = Some (Json200 [\<lparr>timestamp = 1700000000000, price_usd = 5\<rparr>,
                      \<lparr>timestamp = 1700100000000, price_usd = 7\<rparr>])"
proof -
  have n: "normalizePoints no_dateParse
        (JArr [JArr [JNum (Fin 1700000000), JNum (Fin 5)],
               JArr [JNum (Fin 1700100000), JNum (Fin 7)]])
     = [\<lparr>timestamp = 1700000000000, price_usd = 5\<rparr>, \<lparr>timestamp = 1700100000000, price_usd = 7\<rparr>]"
    by (simp add: normalizePoints_eval)
  show ?thesis
    by (simp add: chart_data_def timeframe_1h n windowed_or_tail_def applyTimeWindow_def
          sample_timestamp_def minus_double_numeral slice_last_def downsample_short)
qed

lemma chart_data_unknown_key:
  "TIMEFRAME_CONFIG (timeframe_of query) = Missing \<Longrightarrow>
     chart_data dateParse now loaded query = Some (Error400 ''Unsupported timeframe'')"
  by (simp add: chart_data_def)

lemma chart_data_load_failure:
  "TIMEFRAME_CONFIG (timeframe_of query) \<noteq> Missing \<Longrightarrow>
     chart_data dateParse now (Inl err) query = Some (Error502 ''Failed to load chart data'')"
  by (cases "TIMEFRAME_CONFIG (timeframe_of query)") (simp_all add: chart_data_def)

lemma calls_pending: "calls cs (Some (Pending ws)) = Some (Pending (ws @ cs))"
  by (induction cs arbitrary: ws) (simp_all add: calls_def loadLongTermData_def)

lemma calls_empty_slot: "cs \<noteq> [] \<Longrightarrow> calls cs None = Some (Pending cs)"
proof (cases cs)
  case (Cons c cs')
  have "calls (c # cs') None = calls cs' (Some (Pending [c]))"
    by (simp add: calls_def loadLongTermData_def)
  with Cons show ?thesis by (simp add: calls_pending)
qed simp

text \<open>
  C8: when the read or the parse fails while the callers \<open>cs\<close> await it, the slot is
  cleared, each of them gets the failure, and the next call starts a new read; when the
  parsed value is not an array, each awaiting caller, and a later one, gets the empty
  array.
\<close>

theorem loader_failure_and_non_array:
  assumes "cs \<noteq> []"
  shows "settle (Inl msg) (calls cs None)
           = (None, map (\<lambda>c. (c, Inl (''Failed to load historical cache: '' @ msg))) cs)
         \<and> loadLongTermData c (fst (settle (Inl msg) (calls cs None))) = (Some (Pending [c]), None, True)
         \<and> (\<not> isArray data \<longrightarrow>
              snd (settle (Inr data) (calls cs None)) = map (\<lambda>c. (c, Inr (JArr []))) cs
              \<and> fst (snd (loadLongTermData c (fst (settle (Inr data) (calls cs None)))))
                  = Some (Inr (JArr [])))"
  using assms
  by (simp add: calls_empty_slot settle_def loadLongTermData_def array_or_empty_def)

theorem loader_failure_and_non_array_witness:
  "[1, 2] \<noteq> ([] :: nat list)
   \<and> settle (Inl ''ENOENT'') (calls [1, 2] None)
       = (None, [(1, Inl ''Failed to load historical cache: ENOENT''),
                 (2, Inl ''Failed to load historical cache: ENOENT'')])
   \<and> loadLongTermData 3 (fst (settle (Inl ''ENOENT'') (calls [1, 2] None)))
       = (Some (Pending [3]), None, True)
   \<and> \<not> isArray (JObj [])
   \<and> snd (settle (Inr (JObj [])) (calls [1, 2] None)) = [(1, Inr (JArr [])), (2, Inr (JArr []))]
   \<and> fst (snd (loadLongTermData 3 (fst (settle (Inr (JObj [])) (calls [1, 2] None)))))
       = Some (Inr (JArr []))"
proof -
  have h: "[1, 2] \<noteq> ([] :: nat list)" by simp
  have a: "\<not> isArray (JObj [])" by simp
  from loader_failure_and_non_array [OF h, of "''ENOENT''" 3 "JObj []"] a h
  show ?thesis by (simp add: calls_def loadLongTermData_def settle_def array_or_empty_def)
qed

text \<open>
  The earlier \<open>applyTimeWindow\<close> measures from the wall clock: on a cache whose last
  sample is older than the window it keeps nothing, where the current one keeps the sample.
\<close>

lemma applyTimeWindow_now_differs:
  "applyTimeWindow 1700200000000 sample_timestamp
     [\<lparr>timestamp = 1700000000000, price_usd = 5\<rparr>, \<lparr>timestamp = 1700100000000, price_usd = 7\<rparr>]
     (Fin 3600000)
     = [\<lparr>timestamp = 1700100000000, price_usd = 7\<rparr>]
   \<and> applyTimeWindow_now 1700200000000 sample_timestamp
     [\<lparr>timestamp = 1700000000000, price_usd = 5\<rparr>, \<lparr>timestamp = 1700100000000, price_usd = 7\<rparr>]
     (Fin 3600000)
     = []"
  by (simp add: applyTimeWindow_def applyTimeWindow_now_def sample_timestamp_def
        minus_double_numeral)

end
